theory Spec2Isabelle
  imports Complex_Main
begin

section \<open>Price bars and the pandas helpers the detectors use\<close>

text \<open>
  Prices are Python floats in the source. They are modelled as exact reals: every
  statement below is about the arithmetic the code writes down, not about binary
  rounding. A data frame is the list of its rows, oldest first.
\<close>

record bar =
  bar_timestamp :: int
  bar_open :: real
  bar_high :: real
  bar_low :: real
  bar_close :: real
  bar_volume :: real

text \<open>
  \<^verbatim>\<open>df.tail(n)\<close>: pandas returns \<^verbatim>\<open>iloc[0:0]\<close> for \<open>n = 0\<close> and \<^verbatim>\<open>iloc[-n:]\<close>
  otherwise, so a negative \<open>n\<close> drops the first \<open>|n|\<close> rows.
\<close>

definition tail_rows :: "int \<Rightarrow> 'a list \<Rightarrow> 'a list" where
  "tail_rows n xs =
     (if n = 0 then []
      else if 0 < n then drop (length xs - nat n) xs
      else drop (nat (- n)) xs)"

section \<open>Fair value gaps (fvg.py)\<close>

record fvg =
  fvg_high :: real
  fvg_low :: real
  fvg_timestamp :: int
  gap_size :: real
  direction :: string
  filled :: bool
  mitigated :: bool
  invalidated :: bool

text \<open>
  The body of the loop of \<^verbatim>\<open>detect_fvgs\<close> for one index \<open>i\<close>: it appends at most one
  gap to the list built so far. \<^verbatim>\<open>subsequent_candles\<close> is \<^verbatim>\<open>df.iloc[i+1:]\<close>.
\<close>

definition fvg_step :: "bar list \<Rightarrow> nat \<Rightarrow> fvg list \<Rightarrow> fvg list" where
  "fvg_step df i fvgs =
     (let candle_1 = df ! (i - 2); candle_3 = df ! i in
      if bar_high candle_1 < bar_low candle_3 then
        (let gap_high = bar_low candle_3;
             gap_low = bar_high candle_1;
             gsize = gap_high - gap_low;
             subsequent_candles = drop (i + 1) df;
             mit = (i < length df - 1 \<and> list_ex (\<lambda>c. bar_low c \<le> gap_high) subsequent_candles);
             inv = (i < length df - 1 \<and> list_ex (\<lambda>c. bar_close c < gap_low) subsequent_candles)
         in fvgs @ [\<lparr>fvg_high = gap_high, fvg_low = gap_low,
                     fvg_timestamp = bar_timestamp candle_3, gap_size = gsize,
                     direction = ''bullish'', filled = inv, mitigated = mit,
                     invalidated = inv\<rparr>])
      else if bar_low candle_1 > bar_high candle_3 then
        (let gap_high = bar_low candle_1;
             gap_low = bar_high candle_3;
             gsize = gap_high - gap_low;
             subsequent_candles = drop (i + 1) df;
             mit = (i < length df - 1 \<and> list_ex (\<lambda>c. bar_high c \<ge> gap_low) subsequent_candles);
             inv = (i < length df - 1 \<and> list_ex (\<lambda>c. bar_close c > gap_high) subsequent_candles)
         in fvgs @ [\<lparr>fvg_high = gap_high, fvg_low = gap_low,
                     fvg_timestamp = bar_timestamp candle_3, gap_size = gsize,
                     direction = ''bearish'', filled = inv, mitigated = mit,
                     invalidated = inv\<rparr>])
      else fvgs)"

text \<open>
  \<^verbatim>\<open>detect_fvgs(df, lookback)\<close>: nothing below ten bars, otherwise the loop
  \<^verbatim>\<open>for i in range(2, len(df))\<close> over the last \<open>lookback\<close> rows.
\<close>

definition detect_fvgs :: "bar list \<Rightarrow> int \<Rightarrow> fvg list" where
  "detect_fvgs df0 lookback =
     (if length df0 < 10 then []
      else (let df = tail_rows lookback df0
            in fold (fvg_step df) [2..<length df] []))"

text \<open>\<^verbatim>\<open>filter_significant_fvgs\<close> is not needed by the statements below.\<close>

text \<open>Bars used in the examples: a flat bar, and the three bars of the specification's
  example (the middle one is not fixed there).\<close>

definition mk_bar :: "real \<Rightarrow> real \<Rightarrow> real \<Rightarrow> real \<Rightarrow> bar" where
  "mk_bar o' h l c =
     \<lparr>bar_timestamp = 0, bar_open = o', bar_high = h, bar_low = l, bar_close = c,
      bar_volume = 0\<rparr>"

definition example_three_bars :: "bar list" where
  "example_three_bars =
     [mk_bar 9.9 10 9.8 9.9, mk_bar 10 12 8 11, mk_bar 11 16 10.5 15]"

definition example_ten_bars :: "bar list" where
  "example_ten_bars = replicate 7 (mk_bar 9.9 10 9.8 9.9) @ example_three_bars"

text \<open>The two tests of the loop body, in the order the \<^verbatim>\<open>if\<close>/\<^verbatim>\<open>elif\<close> takes them.\<close>

definition gap_up :: "bar list \<Rightarrow> nat \<Rightarrow> bool" where
  "gap_up w i \<longleftrightarrow> bar_high (w ! (i - 2)) < bar_low (w ! i)"

definition gap_down :: "bar list \<Rightarrow> nat \<Rightarrow> bool" where
  "gap_down w i \<longleftrightarrow> \<not> gap_up w i \<and> bar_low (w ! (i - 2)) > bar_high (w ! i)"

text \<open>Ten bars whose last one gaps down below the gap formed by bars 6 to 8.\<close>

definition example_gap_below_bars :: "bar list" where
  "example_gap_below_bars =
     replicate 6 (mk_bar 9.9 10 9.8 9.9) @
     [mk_bar 9.9 10 9.8 9.9, mk_bar 10 12 8 11, mk_bar 11 16 10.5 15, mk_bar 8.5 9 8 8.5]"

text \<open>Relating a gap to the gap reported for the same triple once more bars are known.\<close>

definition same_gap :: "fvg \<Rightarrow> fvg \<Rightarrow> bool" where
  "same_gap f g \<longleftrightarrow>
     fvg_high g = fvg_high f \<and> fvg_low g = fvg_low f \<and> fvg_timestamp g = fvg_timestamp f \<and>
     gap_size g = gap_size f \<and> direction g = direction f"

definition flags_kept :: "fvg \<Rightarrow> fvg \<Rightarrow> bool" where
  "flags_kept f g \<longleftrightarrow>
     same_gap f g \<and> (mitigated f \<longrightarrow> mitigated g) \<and> (invalidated f \<longrightarrow> invalidated g) \<and>
     (filled f \<longrightarrow> filled g)"

section \<open>Dealing range (pre_market_routine.py, step 3)\<close>

record dealing_range =
  dr_high :: real
  dr_low :: real
  dr_equilibrium :: real
  dr_premium :: real
  dr_discount :: real
  dr_source :: string

text \<open>
  The zone computation that closes \<^verbatim>\<open>_step3_dealing_range\<close>, once its source chain (previous
  daily bar, higher-timeframe range, last 50 daily bars) has fixed \<open>high\<close>, \<open>low\<close> and the
  name of the source used. The chain itself only fetches bars.
\<close>

definition step3_dealing_range :: "real \<Rightarrow> real \<Rightarrow> string \<Rightarrow> dealing_range" where
  "step3_dealing_range high low range_source =
     (let range_size = high - low;
          equilibrium = low + (range_size * 0.50);
          premium = low + (range_size * 0.618);
          discount = low + (range_size * 0.382)
      in \<lparr>dr_high = high, dr_low = low, dr_equilibrium = equilibrium, dr_premium = premium,
          dr_discount = discount, dr_source = range_source\<rparr>)"

section \<open>Plan validator (coach.py)\<close>

datatype py_error = TypeError | ZeroDivisionError

datatype plan_status = ACTIVE | WAITING | INVALIDATED | MISSED | NA

text \<open>The message strings of the source, with the number an f-string prints kept as a field.\<close>

datatype status_message =
    No_plan
  | Incomplete_plan_data
  | Price_hit_invalidation real
  | Price_hit_stop_loss real
  | Price_in_entry_zone
  | Price_above_zone_waiting real
  | Price_below_zone_holding
  | Price_below_zone_waiting real
  | Price_above_zone_holding

text \<open>
  The stored scenario is a dictionary; the validator reads four numbers from it with
  \<^verbatim>\<open>.get\<close>, each of which may be absent (\<open>None\<close>). \<open>None\<close> for the whole plan stands for
  Python's \<^verbatim>\<open>None\<close> or an empty dictionary, both falsy.
\<close>

record plan =
  plan_entry_high :: "real option"
  plan_entry_low :: "real option"
  plan_stop_loss :: "real option"
  plan_invalidation :: "real option"

text \<open>Python truthiness of a number or \<open>None\<close>: \<open>None\<close> and zero are false.\<close>

definition truthy :: "real option \<Rightarrow> bool" where
  "truthy v = (case v of None \<Rightarrow> False | Some x \<Rightarrow> x \<noteq> 0)"

text \<open>
  Step 1 of the validator, the hard breach. Comparing the price with a missing
  invalidation raises \<^verbatim>\<open>TypeError\<close>; the stop is known to be a number at this point.
  \<open>Inr None\<close> means that neither \<^verbatim>\<open>return\<close> was taken.
\<close>

definition check_invalidation ::
  "real option \<Rightarrow> real \<Rightarrow> real \<Rightarrow> string \<Rightarrow> py_error + (plan_status \<times> status_message) option"
where
  "check_invalidation invalidation stop_loss current_price dir =
     (case invalidation of
        None \<Rightarrow> Inl TypeError
      | Some lvl \<Rightarrow>
          if dir = ''long'' then
            (if current_price \<le> lvl then Inr (Some (INVALIDATED, Price_hit_invalidation lvl))
             else if current_price \<le> stop_loss then Inr (Some (INVALIDATED, Price_hit_stop_loss stop_loss))
             else Inr None)
          else
            (if current_price \<ge> lvl then Inr (Some (INVALIDATED, Price_hit_invalidation lvl))
             else if current_price \<ge> stop_loss then Inr (Some (INVALIDATED, Price_hit_stop_loss stop_loss))
             else Inr None))"

text \<open>Step 2, the entry zone.\<close>

definition check_entry_zone :: "real \<Rightarrow> real \<Rightarrow> real \<Rightarrow> string \<Rightarrow> plan_status \<times> status_message" where
  "check_entry_zone entry_high entry_low current_price dir =
     (if dir = ''long'' then
        (if entry_low \<le> current_price \<and> current_price \<le> entry_high then (ACTIVE, Price_in_entry_zone)
         else if current_price > entry_high then (WAITING, Price_above_zone_waiting entry_high)
         else (ACTIVE, Price_below_zone_holding))
      else
        (if entry_low \<le> current_price \<and> current_price \<le> entry_high then (ACTIVE, Price_in_entry_zone)
         else if current_price < entry_low then (WAITING, Price_below_zone_waiting entry_low)
         else (ACTIVE, Price_above_zone_holding)))"

definition validate_plan_status ::
  "plan option \<Rightarrow> real \<Rightarrow> string \<Rightarrow> py_error + (plan_status \<times> status_message)"
where
  "validate_plan_status pl current_price dir =
     (case pl of
        None \<Rightarrow> Inr (NA, No_plan)
      | Some p \<Rightarrow>
          if \<not> (truthy (plan_entry_high p) \<and> truthy (plan_entry_low p) \<and> truthy (plan_stop_loss p))
          then Inr (NA, Incomplete_plan_data)
          else
            (case (plan_entry_high p, plan_entry_low p, plan_stop_loss p) of
               (Some entry_high, Some entry_low, Some stop_loss) \<Rightarrow>
                 (case check_invalidation (plan_invalidation p) stop_loss current_price dir of
                    Inl e \<Rightarrow> Inl e
                  | Inr (Some r) \<Rightarrow> Inr r
                  | Inr None \<Rightarrow> Inr (check_entry_zone entry_high entry_low current_price dir))
             | _ \<Rightarrow> Inr (NA, Incomplete_plan_data)))"

text \<open>The status a call returns, if it returns.\<close>

definition returned_status :: "py_error + (plan_status \<times> status_message) \<Rightarrow> plan_status option" where
  "returned_status r = (case r of Inl e \<Rightarrow> None | Inr (s, m) \<Rightarrow> Some s)"

definition mk_plan :: "real \<Rightarrow> real \<Rightarrow> real \<Rightarrow> real \<Rightarrow> plan" where
  "mk_plan entry_high entry_low stop_loss invalidation =
     \<lparr>plan_entry_high = Some entry_high, plan_entry_low = Some entry_low,
      plan_stop_loss = Some stop_loss, plan_invalidation = Some invalidation\<rparr>"

section \<open>Day type (pre_market_routine.py, step 5)\<close>

datatype BiasType = BULLISH | BEARISH | NEUTRAL

record order_block =
  ob_high :: real
  ob_low :: real
  ob_timestamp :: int
  ob_direction :: string
  ob_strength :: real

text \<open>A detected sweep is a dictionary; the classifier reads its \<^verbatim>\<open>'type'\<close> only.\<close>

record sweep =
  sweep_type :: string
  sweep_level :: string

record day_scores =
  trend_score :: int
  reversal_score :: int
  consolidation_score :: int

text \<open>
  The scoring of \<^verbatim>\<open>_step5_day_type\<close>, one update of the three counters after the other,
  in the order of the source.
\<close>

definition step5_scores ::
  "BiasType \<Rightarrow> sweep list \<Rightarrow> order_block list \<Rightarrow> fvg list \<Rightarrow> day_scores"
where
  "step5_scores htf_bias sweeps order_blocks fvgs =
     (let s0 = \<lparr>trend_score = 0, reversal_score = 0, consolidation_score = 0\<rparr>;
          s1 = (if htf_bias \<noteq> NEUTRAL then s0\<lparr>trend_score := trend_score s0 + 2\<rparr>
                else s0\<lparr>consolidation_score := consolidation_score s0 + 2\<rparr>);
          bsl_swept = list_ex (\<lambda>s. sweep_type s = ''BSL'') sweeps;
          ssl_swept = list_ex (\<lambda>s. sweep_type s = ''SSL'') sweeps;
          s2 = (if bsl_swept \<and> ssl_swept then s1\<lparr>reversal_score := reversal_score s1 + 3\<rparr>
                else if bsl_swept \<or> ssl_swept then s1\<lparr>trend_score := trend_score s1 + 2\<rparr>
                else s1\<lparr>consolidation_score := consolidation_score s1 + 2\<rparr>);
          strong_obs = filter (\<lambda>ob. ob_strength ob > 0.7) order_blocks;
          s3 = (if length strong_obs > 0 then s2\<lparr>reversal_score := reversal_score s2 + 1\<rparr> else s2);
          unfilled_fvgs = filter (\<lambda>f. \<not> filled f) fvgs;
          s4 = (if length unfilled_fvgs > 2 then s3\<lparr>trend_score := trend_score s3 + 1\<rparr> else s3)
      in s4)"

text \<open>The decision; the reasoning string returned beside it is left out.\<close>

definition step5_day_type ::
  "BiasType \<Rightarrow> sweep list \<Rightarrow> order_block list \<Rightarrow> fvg list \<Rightarrow> string"
where
  "step5_day_type htf_bias sweeps order_blocks fvgs =
     (let s = step5_scores htf_bias sweeps order_blocks fvgs in
      if trend_score s \<ge> max (reversal_score s) (consolidation_score s) + 1 then ''trend''
      else if reversal_score s \<ge> max (trend_score s) (consolidation_score s) + 1 then ''reversal''
      else ''consolidation'')"

text \<open>
  The additive terms as the specification words them, as closed formulas, to compare
  with the counters of the code.
\<close>

definition spec_both_sides_swept :: "sweep list \<Rightarrow> bool" where
  "spec_both_sides_swept sweeps \<longleftrightarrow>
     (\<exists>s \<in> set sweeps. sweep_type s = ''BSL'') \<and> (\<exists>s \<in> set sweeps. sweep_type s = ''SSL'')"

definition spec_one_side_swept :: "sweep list \<Rightarrow> bool" where
  "spec_one_side_swept sweeps \<longleftrightarrow>
     ((\<exists>s \<in> set sweeps. sweep_type s = ''BSL'') \<or> (\<exists>s \<in> set sweeps. sweep_type s = ''SSL''))
     \<and> \<not> spec_both_sides_swept sweeps"

definition spec_trend_score :: "BiasType \<Rightarrow> sweep list \<Rightarrow> fvg list \<Rightarrow> int" where
  "spec_trend_score htf_bias sweeps fvgs =
     (if htf_bias \<noteq> NEUTRAL then 2 else 0) + (if spec_one_side_swept sweeps then 2 else 0)
     + (if length (filter (\<lambda>f. \<not> filled f) fvgs) > 2 then 1 else 0)"

definition spec_reversal_score :: "sweep list \<Rightarrow> order_block list \<Rightarrow> int" where
  "spec_reversal_score sweeps order_blocks =
     (if spec_both_sides_swept sweeps then 3 else 0)
     + (if \<exists>ob \<in> set order_blocks. ob_strength ob > 0.7 then 1 else 0)"

definition spec_consolidation_score :: "BiasType \<Rightarrow> sweep list \<Rightarrow> int" where
  "spec_consolidation_score htf_bias sweeps =
     (if htf_bias = NEUTRAL then 2 else 0)
     + (if \<not> spec_both_sides_swept sweeps \<and> \<not> spec_one_side_swept sweeps then 2 else 0)"

definition mk_sweep :: "string \<Rightarrow> sweep" where
  "mk_sweep t = \<lparr>sweep_type = t, sweep_level = ''Asian''\<rparr>"

section \<open>Market structure (structure.py)\<close>

text \<open>
  \<^verbatim>\<open>_identify_swings(data, mode, window)\<close>: index \<open>i\<close> runs over
  \<^verbatim>\<open>range(window, len(data) - window)\<close>; the two slices are \<^verbatim>\<open>data[i-window:i]\<close> and
  \<^verbatim>\<open>data[i+1:i+window+1]\<close>.
\<close>

definition is_swing :: "real list \<Rightarrow> string \<Rightarrow> nat \<Rightarrow> nat \<Rightarrow> bool" where
  "is_swing data mode window i =
     (if mode = ''high'' then
        list_all (\<lambda>x. data ! i \<ge> x) (take window (drop (i - window) data)) \<and>
        list_all (\<lambda>x. data ! i \<ge> x) (take window (drop (i + 1) data))
      else
        list_all (\<lambda>x. data ! i \<le> x) (take window (drop (i - window) data)) \<and>
        list_all (\<lambda>x. data ! i \<le> x) (take window (drop (i + 1) data)))"

definition identify_swings :: "real list \<Rightarrow> string \<Rightarrow> nat \<Rightarrow> real list" where
  "identify_swings data mode window =
     map (\<lambda>i. data ! i) (filter (is_swing data mode window) [window..<length data - window])"

text \<open>
  \<^verbatim>\<open>_is_ranging\<close>. The division is numpy's: a zero \<open>range_low\<close> raises nothing and gives
  plus or minus infinity or NaN, of which only minus infinity is below the threshold.
  The last 30 rows are never empty where the function is called.
\<close>

definition is_ranging :: "bar list \<Rightarrow> real \<Rightarrow> bool" where
  "is_ranging df threshold =
     (let recent = tail_rows 30 df;
          range_high = Max (set (map bar_high recent));
          range_low = Min (set (map bar_low recent))
      in if range_low = 0 then range_high - range_low < 0
         else (range_high - range_low) / range_low \<le> threshold)"

text \<open>\<^verbatim>\<open>all(xs[i] < xs[i+1] for i in range(len(xs)-1))\<close> and its mirror image.\<close>

definition all_rising :: "real list \<Rightarrow> bool" where
  "all_rising xs = list_all (\<lambda>i. xs ! i < xs ! (i + 1)) [0..<length xs - 1]"

definition all_falling :: "real list \<Rightarrow> bool" where
  "all_falling xs = list_all (\<lambda>i. xs ! i > xs ! (i + 1)) [0..<length xs - 1]"

definition analyze_market_structure :: "bar list \<Rightarrow> string" where
  "analyze_market_structure df =
     (if length df < 30 then ''insufficient_data''
      else
        (let swing_highs = identify_swings (map bar_high df) ''high'' 5;
             swing_lows = identify_swings (map bar_low df) ''low'' 5;
             recent_highs = (if length swing_highs \<ge> 5 then drop (length swing_highs - 5) swing_highs
                             else swing_highs);
             recent_lows = (if length swing_lows \<ge> 5 then drop (length swing_lows - 5) swing_lows
                            else swing_lows);
             enough = (length recent_highs \<ge> 2 \<and> length recent_lows \<ge> 2)
         in if enough \<and> all_rising recent_highs \<and> all_rising recent_lows
              then ''higher_highs_higher_lows''
            else if enough \<and> all_rising recent_highs then ''higher_highs''
            else if enough \<and> all_falling recent_highs \<and> all_falling recent_lows
              then ''lower_highs_lower_lows''
            else if enough \<and> all_falling recent_lows then ''lower_lows''
            else if is_ranging df 0.03 then ''ranging''
            else ''choppy''))"

section \<open>Order blocks (order_blocks.py)\<close>

definition obs_overlap :: "order_block \<Rightarrow> order_block \<Rightarrow> bool" where
  "obs_overlap ob1 ob2 \<longleftrightarrow> \<not> (ob_high ob1 < ob_low ob2 \<or> ob_low ob1 > ob_high ob2)"

text \<open>
  One round of the loop of \<^verbatim>\<open>_remove_overlapping_obs\<close>: the inner loop looks for a block
  already kept that overlaps \<open>ob\<close>, and \<open>ob\<close> is appended when there is none.
\<close>

definition prune_step :: "order_block \<Rightarrow> order_block list \<Rightarrow> order_block list" where
  "prune_step ob filtered =
     (let overlaps = list_ex (\<lambda>existing_ob. obs_overlap ob existing_ob) filtered
      in if \<not> overlaps then filtered @ [ob] else filtered)"

text \<open>
  \<^verbatim>\<open>sorted(order_blocks, key=strength, reverse=True)\<close> is stable: blocks of equal strength
  keep their order. That is the stable ascending sort on the negated key.
\<close>

definition remove_overlapping_obs :: "order_block list \<Rightarrow> order_block list" where
  "remove_overlapping_obs order_blocks =
     (if order_blocks = [] then []
      else (let sorted_obs = sort_key (\<lambda>x. - ob_strength x) order_blocks
            in fold prune_step sorted_obs []))"

definition mk_ob :: "real \<Rightarrow> real \<Rightarrow> real \<Rightarrow> order_block" where
  "mk_ob h l s =
     \<lparr>ob_high = h, ob_low = l, ob_timestamp = 0, ob_direction = ''bullish'', ob_strength = s\<rparr>"

section \<open>Liquidity zones (liquidity.py)\<close>

record liquidity_zone =
  lz_price :: real
  zone_type :: string
  lz_strength :: real

text \<open>
  One round of the loop of \<^verbatim>\<open>_merge_nearby_zones\<close>. The prices are Python floats, so
  dividing by a last merged price of zero raises \<^verbatim>\<open>ZeroDivisionError\<close>; the division is
  evaluated before the zone types are compared. \<^verbatim>\<open>merged\<close> is never empty here.
\<close>

definition merge_step ::
  "real \<Rightarrow> liquidity_zone \<Rightarrow> liquidity_zone list \<Rightarrow> py_error + liquidity_zone list"
where
  "merge_step tolerance zone merged =
     (let last_merged = last merged in
      if lz_price last_merged = 0 then Inl ZeroDivisionError
      else if \<bar>lz_price zone - lz_price last_merged\<bar> / lz_price last_merged \<le> tolerance
              \<and> zone_type zone = zone_type last_merged then
        (if lz_strength zone > lz_strength last_merged
         then Inr (merged[length merged - 1 := zone])
         else Inr merged)
      else Inr (merged @ [zone]))"

fun merge_loop ::
  "real \<Rightarrow> liquidity_zone list \<Rightarrow> liquidity_zone list \<Rightarrow> py_error + liquidity_zone list"
where
  "merge_loop tolerance [] merged = Inr merged"
| "merge_loop tolerance (zone # zones) merged =
     (case merge_step tolerance zone merged of
        Inl e \<Rightarrow> Inl e
      | Inr merged' \<Rightarrow> merge_loop tolerance zones merged')"

text \<open>\<^verbatim>\<open>sorted(zones, key=price)\<close> is the stable sort on the price.\<close>

definition merge_nearby_zones ::
  "liquidity_zone list \<Rightarrow> real \<Rightarrow> py_error + liquidity_zone list"
where
  "merge_nearby_zones zones tolerance =
     (if zones = [] then Inr []
      else (case sort_key lz_price zones of
              [] \<Rightarrow> Inr []
            | first # rest \<Rightarrow> merge_loop tolerance rest [first]))"

text \<open>The distance test of the merge, read on two zones kept next to each other.\<close>

definition apart :: "real \<Rightarrow> liquidity_zone \<Rightarrow> liquidity_zone \<Rightarrow> bool" where
  "apart tolerance a b \<longleftrightarrow> \<bar>lz_price b - lz_price a\<bar> / lz_price a > tolerance"

definition apart_if_same_type :: "real \<Rightarrow> liquidity_zone \<Rightarrow> liquidity_zone \<Rightarrow> bool" where
  "apart_if_same_type tolerance a b \<longleftrightarrow> (zone_type a = zone_type b \<longrightarrow> apart tolerance a b)"

text \<open>What holds of the merged list after each round, \<open>seen\<close> being the zones read so far.\<close>

definition merge_inv :: "real \<Rightarrow> liquidity_zone set \<Rightarrow> liquidity_zone list \<Rightarrow> bool" where
  "merge_inv tolerance seen merged \<longleftrightarrow>
     merged \<noteq> [] \<and> sorted (map lz_price merged) \<and>
     successively (apart_if_same_type tolerance) merged \<and>
     set merged \<subseteq> seen \<and>
     (\<forall>z \<in> seen. \<exists>r \<in> set merged. zone_type r = zone_type z \<and> lz_strength z \<le> lz_strength r)"

definition mk_zone :: "real \<Rightarrow> string \<Rightarrow> real \<Rightarrow> liquidity_zone" where
  "mk_zone p t s = \<lparr>lz_price = p, zone_type = t, lz_strength = s\<rparr>"

definition example_mixed_zones :: "liquidity_zone list" where
  "example_mixed_zones =
     [mk_zone 100 ''buy_side'' 0.5, mk_zone 100.1 ''sell_side'' 0.5, mk_zone 100.15 ''buy_side'' 0.5]"

section \<open>Scenario builder (pre_market_routine.py, step 6)\<close>

























section \<open>Verification: the gap detector\<close>

lemma fvg_step_append: "fvg_step df i acc = acc @ fvg_step df i []"
  by (simp add: fvg_step_def Let_def)

lemma fold_fvg_step:
  "fold (fvg_step df) js acc = acc @ concat (map (\<lambda>i. fvg_step df i []) js)"
proof (induction js arbitrary: acc)
  case Nil
  show ?case by simp
next
  case (Cons j js)
  have "fold (fvg_step df) (j # js) acc = fold (fvg_step df) js (fvg_step df j acc)"
    by simp
  also have "\<dots> = fvg_step df j acc @ concat (map (\<lambda>i. fvg_step df i []) js)"
    by (rule Cons.IH)
  also have "\<dots> = (acc @ fvg_step df j []) @ concat (map (\<lambda>i. fvg_step df i []) js)"
    using fvg_step_append [of df j acc] by simp
  finally show ?case by simp
qed

lemma detect_fvgs_concat:
  "10 \<le> length df0 \<Longrightarrow>
   detect_fvgs df0 lookback =
     concat (map (\<lambda>i. fvg_step (tail_rows lookback df0) i [])
                 [2..<length (tail_rows lookback df0)])"
  by (simp add: detect_fvgs_def Let_def fold_fvg_step)

lemma list_ex_drop:
  "list_ex P (drop k xs) \<longleftrightarrow> (\<exists>j. k \<le> j \<and> j < length xs \<and> P (xs ! j))"
proof
  assume "list_ex P (drop k xs)"
  then obtain m where m: "m < length (drop k xs)" "P (drop k xs ! m)"
    by (auto simp: list_ex_iff in_set_conv_nth)
  then have "k \<le> k + m \<and> k + m < length xs \<and> P (xs ! (k + m))"
    by auto
  then show "\<exists>j. k \<le> j \<and> j < length xs \<and> P (xs ! j)" by blast
next
  assume "\<exists>j. k \<le> j \<and> j < length xs \<and> P (xs ! j)"
  then obtain j where j: "k \<le> j" "j < length xs" "P (xs ! j)" by blast
  then have "j - k < length (drop k xs)" "drop k xs ! (j - k) = xs ! j"
    by auto
  with j(3) show "list_ex P (drop k xs)"
    unfolding list_ex_iff using nth_mem by metis
qed

text \<open>What the loop body emits for one triple, the flags read as quantifiers.\<close>

lemma fvg_step_bullish:
  assumes "bar_high (w ! (i - 2)) < bar_low (w ! i)"
  shows "fvg_step w i [] =
    [\<lparr>fvg_high = bar_low (w ! i), fvg_low = bar_high (w ! (i - 2)),
      fvg_timestamp = bar_timestamp (w ! i),
      gap_size = bar_low (w ! i) - bar_high (w ! (i - 2)),
      direction = ''bullish'',
      filled = (\<exists>j. i < j \<and> j < length w \<and> bar_close (w ! j) < bar_high (w ! (i - 2))),
      mitigated = (\<exists>j. i < j \<and> j < length w \<and> bar_low (w ! j) \<le> bar_low (w ! i)),
      invalidated = (\<exists>j. i < j \<and> j < length w \<and> bar_close (w ! j) < bar_high (w ! (i - 2)))\<rparr>]"
  using assms by (auto simp: fvg_step_def Let_def list_ex_drop Suc_le_eq)

lemma fvg_step_bearish:
  assumes "\<not> bar_high (w ! (i - 2)) < bar_low (w ! i)"
    and "bar_low (w ! (i - 2)) > bar_high (w ! i)"
  shows "fvg_step w i [] =
    [\<lparr>fvg_high = bar_low (w ! (i - 2)), fvg_low = bar_high (w ! i),
      fvg_timestamp = bar_timestamp (w ! i),
      gap_size = bar_low (w ! (i - 2)) - bar_high (w ! i),
      direction = ''bearish'',
      filled = (\<exists>j. i < j \<and> j < length w \<and> bar_close (w ! j) > bar_low (w ! (i - 2))),
      mitigated = (\<exists>j. i < j \<and> j < length w \<and> bar_high (w ! j) \<ge> bar_high (w ! i)),
      invalidated = (\<exists>j. i < j \<and> j < length w \<and> bar_close (w ! j) > bar_low (w ! (i - 2)))\<rparr>]"
  using assms by (auto simp: fvg_step_def Let_def list_ex_drop Suc_le_eq)

lemma fvg_step_none:
  assumes "\<not> bar_high (w ! (i - 2)) < bar_low (w ! i)"
    and "\<not> bar_low (w ! (i - 2)) > bar_high (w ! i)"
  shows "fvg_step w i [] = []"
  using assms by (simp add: fvg_step_def Let_def)

lemma length_concat_map_filter:
  "(\<And>x. x \<in> set xs \<Longrightarrow> length (f x) = (if P x then 1 else 0)) \<Longrightarrow>
   length (concat (map f xs)) = length (filter P xs)"
  by (induction xs) auto

lemma fvg_step_cases:
  "fvg_step w i [] =
     (if gap_up w i then
        [\<lparr>fvg_high = bar_low (w ! i), fvg_low = bar_high (w ! (i - 2)),
          fvg_timestamp = bar_timestamp (w ! i),
          gap_size = bar_low (w ! i) - bar_high (w ! (i - 2)),
          direction = ''bullish'',
          filled = (\<exists>j. i < j \<and> j < length w \<and> bar_close (w ! j) < bar_high (w ! (i - 2))),
          mitigated = (\<exists>j. i < j \<and> j < length w \<and> bar_low (w ! j) \<le> bar_low (w ! i)),
          invalidated = (\<exists>j. i < j \<and> j < length w \<and> bar_close (w ! j) < bar_high (w ! (i - 2)))\<rparr>]
      else if gap_down w i then
        [\<lparr>fvg_high = bar_low (w ! (i - 2)), fvg_low = bar_high (w ! i),
          fvg_timestamp = bar_timestamp (w ! i),
          gap_size = bar_low (w ! (i - 2)) - bar_high (w ! i),
          direction = ''bearish'',
          filled = (\<exists>j. i < j \<and> j < length w \<and> bar_close (w ! j) > bar_low (w ! (i - 2))),
          mitigated = (\<exists>j. i < j \<and> j < length w \<and> bar_high (w ! j) \<ge> bar_high (w ! i)),
          invalidated = (\<exists>j. i < j \<and> j < length w \<and> bar_close (w ! j) > bar_low (w ! (i - 2)))\<rparr>]
      else [])"
  using fvg_step_bullish [of w i] fvg_step_bearish [of w i] fvg_step_none [of w i]
  by (simp add: gap_up_def gap_down_def)

text \<open>
  Claim C1, as the code has it. Fewer than ten bars give no gap at all. From ten bars
  on, the detector scans every triple \<open>(i-2, i-1, i)\<close> of the last \<open>lookback\<close> bars:
  where \<open>high[i-2] < low[i]\<close> it emits a bullish gap with \<open>low = high[i-2]\<close>,
  \<open>high = low[i]\<close> and \<open>gap_size = low[i] - high[i-2]\<close>; where that test fails
  and \<open>low[i-2] > high[i]\<close> it emits the mirrored bearish gap; it emits one gap per
  such triple and nothing else. The three bars of the specification's example, after
  seven flat bars, give exactly one bullish gap with low 10, high 10.5 and size 0.5.
\<close>

theorem detect_fvgs_scans_triples:
  assumes w: "w = tail_rows lookback df0"
  shows "(length df0 < 10 \<longrightarrow> detect_fvgs df0 lookback = [])
    \<and> (10 \<le> length df0 \<longrightarrow>
         (\<forall>i. 2 \<le> i \<and> i < length w \<and> bar_high (w ! (i - 2)) < bar_low (w ! i) \<longrightarrow>
            (\<exists>f \<in> set (detect_fvgs df0 lookback).
               direction f = ''bullish'' \<and> fvg_low f = bar_high (w ! (i - 2)) \<and>
               fvg_high f = bar_low (w ! i) \<and>
               gap_size f = bar_low (w ! i) - bar_high (w ! (i - 2)) \<and>
               fvg_timestamp f = bar_timestamp (w ! i)))
       \<and> (\<forall>i. 2 \<le> i \<and> i < length w \<and> \<not> bar_high (w ! (i - 2)) < bar_low (w ! i) \<and>
               bar_low (w ! (i - 2)) > bar_high (w ! i) \<longrightarrow>
            (\<exists>f \<in> set (detect_fvgs df0 lookback).
               direction f = ''bearish'' \<and> fvg_high f = bar_low (w ! (i - 2)) \<and>
               fvg_low f = bar_high (w ! i) \<and>
               gap_size f = bar_low (w ! (i - 2)) - bar_high (w ! i) \<and>
               fvg_timestamp f = bar_timestamp (w ! i)))
       \<and> length (detect_fvgs df0 lookback) =
           length (filter (\<lambda>i. bar_high (w ! (i - 2)) < bar_low (w ! i) \<or>
                               bar_low (w ! (i - 2)) > bar_high (w ! i)) [2..<length w]))
    \<and> detect_fvgs example_ten_bars 100 =
        [\<lparr>fvg_high = 10.5, fvg_low = 10, fvg_timestamp = 0, gap_size = 0.5,
          direction = ''bullish'', filled = False, mitigated = False,
          invalidated = False\<rparr>]"
proof (intro conjI impI allI)
  assume "length df0 < 10"
  then show "detect_fvgs df0 lookback = []"
    by (simp add: detect_fvgs_def)
next
  fix i
  assume len: "10 \<le> length df0"
    and i: "2 \<le> i \<and> i < length w \<and> bar_high (w ! (i - 2)) < bar_low (w ! i)"
  obtain g where g: "fvg_step w i [] = [g]" "direction g = ''bullish''"
      "fvg_low g = bar_high (w ! (i - 2))" "fvg_high g = bar_low (w ! i)"
      "gap_size g = bar_low (w ! i) - bar_high (w ! (i - 2))"
      "fvg_timestamp g = bar_timestamp (w ! i)"
    using i by (simp add: fvg_step_cases gap_up_def)
  have mem: "i \<in> set [2..<length w]" using i by simp
  have "g \<in> set (concat (map (\<lambda>i. fvg_step w i []) [2..<length w]))"
    unfolding set_concat using mem g(1) by force
  then have "g \<in> set (detect_fvgs df0 lookback)"
    using len by (simp add: detect_fvgs_concat w)
  with g show "\<exists>f \<in> set (detect_fvgs df0 lookback).
       direction f = ''bullish'' \<and> fvg_low f = bar_high (w ! (i - 2)) \<and>
       fvg_high f = bar_low (w ! i) \<and>
       gap_size f = bar_low (w ! i) - bar_high (w ! (i - 2)) \<and>
       fvg_timestamp f = bar_timestamp (w ! i)"
    by blast
next
  fix i
  assume len: "10 \<le> length df0"
    and i: "2 \<le> i \<and> i < length w \<and> \<not> bar_high (w ! (i - 2)) < bar_low (w ! i) \<and>
            bar_low (w ! (i - 2)) > bar_high (w ! i)"
  obtain g where g: "fvg_step w i [] = [g]" "direction g = ''bearish''"
      "fvg_high g = bar_low (w ! (i - 2))" "fvg_low g = bar_high (w ! i)"
      "gap_size g = bar_low (w ! (i - 2)) - bar_high (w ! i)"
      "fvg_timestamp g = bar_timestamp (w ! i)"
    using i by (simp add: fvg_step_cases gap_up_def gap_down_def)
  have mem: "i \<in> set [2..<length w]" using i by simp
  have "g \<in> set (concat (map (\<lambda>i. fvg_step w i []) [2..<length w]))"
    unfolding set_concat using mem g(1) by force
  then have "g \<in> set (detect_fvgs df0 lookback)"
    using len by (simp add: detect_fvgs_concat w)
  with g show "\<exists>f \<in> set (detect_fvgs df0 lookback).
       direction f = ''bearish'' \<and> fvg_high f = bar_low (w ! (i - 2)) \<and>
       fvg_low f = bar_high (w ! i) \<and>
       gap_size f = bar_low (w ! (i - 2)) - bar_high (w ! i) \<and>
       fvg_timestamp f = bar_timestamp (w ! i)"
    by blast
next
  assume len: "10 \<le> length df0"
  have "length (concat (map (\<lambda>i. fvg_step w i []) [2..<length w])) =
        length (filter (\<lambda>i. gap_up w i \<or> gap_down w i) [2..<length w])"
    by (rule length_concat_map_filter) (simp add: fvg_step_cases)
  moreover have "(\<lambda>i. gap_up w i \<or> gap_down w i) =
      (\<lambda>i. bar_high (w ! (i - 2)) < bar_low (w ! i) \<or>
            bar_low (w ! (i - 2)) > bar_high (w ! i))"
    by (auto simp: gap_up_def gap_down_def)
  ultimately show "length (detect_fvgs df0 lookback) =
      length (filter (\<lambda>i. bar_high (w ! (i - 2)) < bar_low (w ! i) \<or>
                           bar_low (w ! (i - 2)) > bar_high (w ! i)) [2..<length w])"
    using len by (simp add: detect_fvgs_concat w)
next
  show "detect_fvgs example_ten_bars 100 =
        [\<lparr>fvg_high = 10.5, fvg_low = 10, fvg_timestamp = 0, gap_size = 0.5,
          direction = ''bullish'', filled = False, mitigated = False,
          invalidated = False\<rparr>]"
    by (simp add: detect_fvgs_def example_ten_bars_def example_three_bars_def tail_rows_def
        fvg_step_def mk_bar_def upt_rec numeral_nat nth_append Let_def)
qed

theorem detect_fvgs_scans_triples_witness:
  "10 \<le> length example_ten_bars \<and> length (detect_fvgs example_ten_bars 100) = 1"
proof -
  have w: "example_ten_bars = tail_rows 100 example_ten_bars"
    by (simp add: tail_rows_def example_ten_bars_def example_three_bars_def)
  have len: "10 \<le> length example_ten_bars"
    by (simp add: example_ten_bars_def example_three_bars_def)
  note scan = detect_fvgs_scans_triples [OF w, THEN conjunct2, THEN conjunct1, THEN mp, OF len]
  have "length (detect_fvgs example_ten_bars 100) =
        length (filter (\<lambda>i. bar_high (example_ten_bars ! (i - 2)) < bar_low (example_ten_bars ! i) \<or>
            bar_low (example_ten_bars ! (i - 2)) > bar_high (example_ten_bars ! i))
          [2..<length example_ten_bars])"
    by (rule scan [THEN conjunct2, THEN conjunct2])
  also have "\<dots> = 1"
    by (simp add: example_ten_bars_def example_three_bars_def mk_bar_def upt_rec numeral_nat
        nth_append)
  finally show ?thesis using len by simp
qed

text \<open>The three example bars alone are below the ten-bar minimum: no gap is emitted.\<close>

theorem three_bar_example_counterexample:
  "length example_three_bars = 3
   \<and> bar_high (example_three_bars ! 0) < bar_low (example_three_bars ! 2)
   \<and> detect_fvgs example_three_bars 100 = []"
  by (simp add: detect_fvgs_def example_three_bars_def mk_bar_def)

lemma list_all2_concat_map:
  "(\<And>x. x \<in> set xs \<Longrightarrow> list_all2 R (f x) (g x)) \<Longrightarrow>
   list_all2 R (concat (map f xs)) (concat (map g xs))"
  by (induction xs) (auto intro: list_all2_appendI)

lemma fvg_step_extend:
  assumes "2 \<le> i" "i < length w"
  shows "list_all2 flags_kept (fvg_step w i []) (fvg_step (w @ ext) i [])"
proof -
  have nth: "(w @ ext) ! i = w ! i" "(w @ ext) ! (i - 2) = w ! (i - 2)"
    using assms by (simp_all add: nth_append)
  have up: "gap_up (w @ ext) i = gap_up w i" and down: "gap_down (w @ ext) i = gap_down w i"
    by (simp_all add: gap_up_def gap_down_def nth)
  have ex: "\<And>P. (\<exists>j. i < j \<and> j < length w \<and> P (w ! j)) \<Longrightarrow>
                (\<exists>j. i < j \<and> j < length (w @ ext) \<and> P ((w @ ext) ! j))"
  proof -
    fix P assume "\<exists>j. i < j \<and> j < length w \<and> P (w ! j)"
    then obtain j where j: "i < j" "j < length w" "P (w ! j)" by blast
    then have "i < j \<and> j < length (w @ ext) \<and> P ((w @ ext) ! j)"
      by (simp add: nth_append)
    then show "\<exists>j. i < j \<and> j < length (w @ ext) \<and> P ((w @ ext) ! j)" ..
  qed
  show ?thesis
  proof (cases "gap_up w i")
    case True
    then show ?thesis
      using ex [of "\<lambda>c. bar_close c < bar_high (w ! (i - 2))"]
        ex [of "\<lambda>c. bar_low c \<le> bar_low (w ! i)"]
      by (simp add: fvg_step_cases up nth flags_kept_def same_gap_def)
  next
    case False
    then show ?thesis
      using ex [of "\<lambda>c. bar_close c > bar_low (w ! (i - 2))"]
        ex [of "\<lambda>c. bar_high c \<ge> bar_high (w ! i)"]
      by (simp add: fvg_step_cases up down nth flags_kept_def same_gap_def)
  qed
qed

lemma tail_rows_all: "int (length xs) \<le> n \<Longrightarrow> tail_rows n xs = xs"
  by (cases "xs = []") (auto simp: tail_rows_def)

lemma detect_fvgs_extend:
  assumes "int (length df0 + length ext) \<le> lookback"
  shows "list_all2 flags_kept (detect_fvgs df0 lookback)
           (take (length (detect_fvgs df0 lookback)) (detect_fvgs (df0 @ ext) lookback))"
proof (cases "length df0 < 10")
  case True
  then show ?thesis by (simp add: detect_fvgs_def)
next
  case False
  let ?n = "length df0"
  let ?f = "\<lambda>i. fvg_step df0 i []"
  let ?g = "\<lambda>i. fvg_step (df0 @ ext) i []"
  have t1: "tail_rows lookback df0 = df0" and t2: "tail_rows lookback (df0 @ ext) = df0 @ ext"
    using assms by (simp_all add: tail_rows_all)
  have d1: "detect_fvgs df0 lookback = concat (map ?f [2..<?n])"
    using False by (simp add: detect_fvgs_concat t1)
  have split: "[2..<?n + length ext] = [2..<?n] @ [?n..<?n + length ext]"
    using upt_add_eq_append [of 2 ?n "length ext"] False by simp
  have d2: "detect_fvgs (df0 @ ext) lookback =
      concat (map ?g [2..<?n]) @ concat (map ?g [?n..<?n + length ext])"
    using False by (simp add: detect_fvgs_concat t2 split)
  have rel: "list_all2 flags_kept (concat (map ?f [2..<?n])) (concat (map ?g [2..<?n]))"
    by (rule list_all2_concat_map) (simp add: fvg_step_extend)
  then have "length (concat (map ?f [2..<?n])) = length (concat (map ?g [2..<?n]))"
    by (rule list_all2_lengthD)
  then have "take (length (detect_fvgs df0 lookback)) (detect_fvgs (df0 @ ext) lookback) =
      concat (map ?g [2..<?n])"
    unfolding d1 d2 by simp
  with rel d1 show ?thesis by simp
qed

lemma detect_fvgs_member:
  assumes "f \<in> set (detect_fvgs df0 lookback)" and "w = tail_rows lookback df0"
  shows "\<exists>i. 2 \<le> i \<and> i < length w \<and> fvg_step w i [] = [f]"
proof -
  have len: "10 \<le> length df0"
    using assms(1) by (cases "length df0 < 10") (simp_all add: detect_fvgs_def)
  from assms(1) obtain i where i: "i \<in> set [2..<length w]" "f \<in> set (fvg_step w i [])"
    unfolding detect_fvgs_concat [OF len] assms(2) set_concat by auto
  from i(2) have "fvg_step w i [] = [f]"
    by (simp add: fvg_step_cases split: if_splits)
  with i(1) show ?thesis by auto
qed

lemma fvg_step_up_fields:
  assumes "gap_up w i" and "fvg_step w i [] = [f]"
  shows "direction f = ''bullish''" and "fvg_low f = bar_high (w ! (i - 2))"
    and "fvg_high f = bar_low (w ! i)" and "fvg_timestamp f = bar_timestamp (w ! i)"
    and "filled f = invalidated f"
    and "mitigated f \<longleftrightarrow> (\<exists>j. i < j \<and> j < length w \<and> bar_low (w ! j) \<le> bar_low (w ! i))"
    and "invalidated f \<longleftrightarrow> (\<exists>j. i < j \<and> j < length w \<and> bar_close (w ! j) < bar_high (w ! (i - 2)))"
proof -
  have "f = hd (fvg_step w i [])" using assms(2) by simp
  then have f: "f = \<lparr>fvg_high = bar_low (w ! i), fvg_low = bar_high (w ! (i - 2)),
          fvg_timestamp = bar_timestamp (w ! i),
          gap_size = bar_low (w ! i) - bar_high (w ! (i - 2)),
          direction = ''bullish'',
          filled = (\<exists>j. i < j \<and> j < length w \<and> bar_close (w ! j) < bar_high (w ! (i - 2))),
          mitigated = (\<exists>j. i < j \<and> j < length w \<and> bar_low (w ! j) \<le> bar_low (w ! i)),
          invalidated = (\<exists>j. i < j \<and> j < length w \<and> bar_close (w ! j) < bar_high (w ! (i - 2)))\<rparr>"
    using assms(1) by (simp only: fvg_step_cases if_True list.sel)
  show "direction f = ''bullish''" by (subst f) (simp only: fvg.select_convs)
  show "fvg_low f = bar_high (w ! (i - 2))" by (subst f) (simp only: fvg.select_convs)
  show "fvg_high f = bar_low (w ! i)" by (subst f) (simp only: fvg.select_convs)
  show "fvg_timestamp f = bar_timestamp (w ! i)" by (subst f) (simp only: fvg.select_convs)
  show "filled f = invalidated f" by (subst f, subst f) (simp only: fvg.select_convs)
  show "mitigated f \<longleftrightarrow> (\<exists>j. i < j \<and> j < length w \<and> bar_low (w ! j) \<le> bar_low (w ! i))"
    by (subst f) (simp only: fvg.select_convs)
  show "invalidated f \<longleftrightarrow> (\<exists>j. i < j \<and> j < length w \<and> bar_close (w ! j) < bar_high (w ! (i - 2)))"
    by (subst f) (simp only: fvg.select_convs)
qed

lemma fvg_step_down_fields:
  assumes "\<not> gap_up w i" and "gap_down w i" and "fvg_step w i [] = [f]"
  shows "direction f = ''bearish''" and "fvg_high f = bar_low (w ! (i - 2))"
    and "fvg_low f = bar_high (w ! i)" and "fvg_timestamp f = bar_timestamp (w ! i)"
    and "filled f = invalidated f"
    and "mitigated f \<longleftrightarrow> (\<exists>j. i < j \<and> j < length w \<and> bar_high (w ! j) \<ge> bar_high (w ! i))"
    and "invalidated f \<longleftrightarrow> (\<exists>j. i < j \<and> j < length w \<and> bar_close (w ! j) > bar_low (w ! (i - 2)))"
proof -
  have "f = hd (fvg_step w i [])" using assms(3) by simp
  then have f: "f = \<lparr>fvg_high = bar_low (w ! (i - 2)), fvg_low = bar_high (w ! i),
          fvg_timestamp = bar_timestamp (w ! i),
          gap_size = bar_low (w ! (i - 2)) - bar_high (w ! i),
          direction = ''bearish'',
          filled = (\<exists>j. i < j \<and> j < length w \<and> bar_close (w ! j) > bar_low (w ! (i - 2))),
          mitigated = (\<exists>j. i < j \<and> j < length w \<and> bar_high (w ! j) \<ge> bar_high (w ! i)),
          invalidated = (\<exists>j. i < j \<and> j < length w \<and> bar_close (w ! j) > bar_low (w ! (i - 2)))\<rparr>"
    using assms(1,2) by (simp only: fvg_step_cases if_True if_False list.sel)
  show "direction f = ''bearish''" by (subst f) (simp only: fvg.select_convs)
  show "fvg_high f = bar_low (w ! (i - 2))" by (subst f) (simp only: fvg.select_convs)
  show "fvg_low f = bar_high (w ! i)" by (subst f) (simp only: fvg.select_convs)
  show "fvg_timestamp f = bar_timestamp (w ! i)" by (subst f) (simp only: fvg.select_convs)
  show "filled f = invalidated f" by (subst f, subst f) (simp only: fvg.select_convs)
  show "mitigated f \<longleftrightarrow> (\<exists>j. i < j \<and> j < length w \<and> bar_high (w ! j) \<ge> bar_high (w ! i))"
    by (subst f) (simp only: fvg.select_convs)
  show "invalidated f \<longleftrightarrow> (\<exists>j. i < j \<and> j < length w \<and> bar_close (w ! j) > bar_low (w ! (i - 2)))"
    by (subst f) (simp only: fvg.select_convs)
qed

text \<open>The window of a longer series is the old window, extended, without its first bars.\<close>

lemma drop_append_window:
  assumes "a \<le> length xs" and "a \<le> b"
  shows "drop b (xs @ ys) =
     drop (length (drop a xs) + length ys - length (drop b (xs @ ys))) (drop a xs @ ys)"
proof -
  have e: "drop a xs @ ys = drop a (xs @ ys)" using assms(1) by simp
  show ?thesis
  proof (cases "b \<le> length xs + length ys")
    case True
    with assms have "length (drop a xs) + length ys - length (drop b (xs @ ys)) = b - a"
      by simp
    moreover have "drop (b - a) (drop a (xs @ ys)) = drop b (xs @ ys)"
      using assms(2) by (simp del: drop_append)
    ultimately show ?thesis by (simp only: e)
  next
    case False
    then have "drop b (xs @ ys) = []" by simp
    moreover from False assms
    have "length (drop a xs) + length ys - length (drop b (xs @ ys)) = length (drop a xs @ ys)"
      by simp
    ultimately show ?thesis by (simp only: drop_all order_refl)
  qed
qed

lemma tail_rows_append:
  "tail_rows n (xs @ ys) =
     drop (length (tail_rows n xs) + length ys - length (tail_rows n (xs @ ys)))
          (tail_rows n xs @ ys)"
proof -
  define a where "a = (if n = 0 then length xs else if 0 < n then length xs - nat n
                       else min (nat (- n)) (length xs))"
  define b where "b = (if n = 0 then length xs + length ys
                       else if 0 < n then length xs + length ys - nat n else nat (- n))"
  have ta: "tail_rows n xs = drop a xs" by (simp add: tail_rows_def a_def min_def)
  have tb: "tail_rows n (xs @ ys) = drop b (xs @ ys)" by (simp add: tail_rows_def b_def)
  have "a \<le> length xs" "a \<le> b" by (auto simp: a_def b_def)
  then show ?thesis unfolding ta tb by (rule drop_append_window)
qed

lemma fvg_step_later_bars:
  assumes c1: "v ! (j - 2) = w ! (i - 2)" and c3: "v ! j = w ! i"
    and sub: "drop (j + 1) v = drop (i + 1) w @ ext"
  shows "list_all2 flags_kept (fvg_step w i []) (fvg_step v j [])"
proof -
  have more: "list_ex P (drop (j + 1) v)" if "list_ex P (drop (i + 1) w)" for P
    unfolding sub using that by simp
  have room: "j < length v - 1" if "list_ex P (drop (j + 1) v)" for P
  proof (rule ccontr)
    assume "\<not> j < length v - 1"
    then have "drop (j + 1) v = []" by simp
    with that show False by simp
  qed
  show ?thesis
    unfolding fvg_step_def Let_def c1 c3
    using more room by (auto simp: flags_kept_def same_gap_def)
qed

lemma fvg_step_shift:
  assumes i: "k + 2 \<le> i" "i < length w"
  shows "list_all2 flags_kept (fvg_step w i []) (fvg_step (drop k (w @ ext)) (i - k) [])"
proof (rule fvg_step_later_bars)
  have k: "k \<le> length (w @ ext)" using i by simp
  have "drop k (w @ ext) ! (i - k - 2) = (w @ ext) ! (k + (i - k - 2))"
    using k by (rule nth_drop)
  also have "k + (i - k - 2) = i - 2" using i by simp
  also have "(w @ ext) ! (i - 2) = w ! (i - 2)" using i by (simp add: nth_append)
  finally show "drop k (w @ ext) ! (i - k - 2) = w ! (i - 2)" .
  have "drop k (w @ ext) ! (i - k) = (w @ ext) ! (k + (i - k))"
    using k by (rule nth_drop)
  also have "k + (i - k) = i" using i by simp
  also have "(w @ ext) ! i = w ! i" using i by (simp add: nth_append)
  finally show "drop k (w @ ext) ! (i - k) = w ! i" .
  have "drop (i - k + 1) (drop k (w @ ext)) = drop (i - k + 1 + k) (w @ ext)"
    by (simp only: drop_drop)
  also have "i - k + 1 + k = i + 1" using i by simp
  also have "drop (i + 1) (w @ ext) = drop (i + 1) w @ ext" using i by simp
  finally show "drop (i - k + 1) (drop k (w @ ext)) = drop (i + 1) w @ ext" .
qed

lemma fvg_step_in_detect:
  assumes "10 \<le> length df" and "2 \<le> j" and "j < length (tail_rows lookback df)"
  shows "set (fvg_step (tail_rows lookback df) j []) \<subseteq> set (detect_fvgs df lookback)"
proof -
  have "j \<in> set [2..<length (tail_rows lookback df)]" using assms(2,3) by simp
  then show ?thesis
    unfolding detect_fvgs_concat [OF assms(1)] set_concat by force
qed

text \<open>
  A gap emitted for the triple at index \<open>i\<close> of the old window, whose triple lies in the
  window of the longer series as well, is emitted there for the same triple, with the same
  bounds and with every flag that was set still set.
\<close>

lemma fvg_persists:
  assumes f: "fvg_step (tail_rows lookback df0) i [] = [f]"
    and i: "i < length (tail_rows lookback df0)"
    and k: "k = length (tail_rows lookback df0) + length ext
                - length (tail_rows lookback (df0 @ ext))"
    and ki: "k + 2 \<le> i"
    and len: "10 \<le> length df0"
  shows "\<exists>g. fvg_step (tail_rows lookback (df0 @ ext)) (i - k) [] = [g]
             \<and> g \<in> set (detect_fvgs (df0 @ ext) lookback) \<and> flags_kept f g"
proof -
  let ?w = "tail_rows lookback df0"
  let ?v = "tail_rows lookback (df0 @ ext)"
  have v: "?v = drop k (?w @ ext)" unfolding k by (rule tail_rows_append)
  from fvg_step_shift [OF ki i, of ext]
  have "list_all2 flags_kept [f] (fvg_step ?v (i - k) [])" unfolding f v .
  then obtain g where g: "fvg_step ?v (i - k) [] = [g]" "flags_kept f g"
    by (auto simp: list_all2_Cons1)
  have "i - k < length ?v" unfolding v using ki i by simp
  moreover have "2 \<le> i - k" using ki by simp
  moreover have "10 \<le> length (df0 @ ext)" using len by simp
  ultimately have "set (fvg_step ?v (i - k) []) \<subseteq> set (detect_fvgs (df0 @ ext) lookback)"
    by (intro fvg_step_in_detect)
  with g show ?thesis by auto
qed

lemma fvg_step_flags:
  assumes i: "fvg_step w i [] = [f]"
  shows "filled f = invalidated f"
    and "fvg_timestamp f = bar_timestamp (w ! i) \<and>
          ((direction f = ''bullish'' \<and> fvg_low f = bar_high (w ! (i - 2)) \<and>
            fvg_high f = bar_low (w ! i) \<and>
            (mitigated f \<longleftrightarrow> (\<exists>j. i < j \<and> j < length w \<and> bar_low (w ! j) \<le> fvg_high f)) \<and>
            (invalidated f \<longleftrightarrow> (\<exists>j. i < j \<and> j < length w \<and> bar_close (w ! j) < fvg_low f)))
         \<or> (direction f = ''bearish'' \<and> fvg_high f = bar_low (w ! (i - 2)) \<and>
            fvg_low f = bar_high (w ! i) \<and>
            (mitigated f \<longleftrightarrow> (\<exists>j. i < j \<and> j < length w \<and> bar_high (w ! j) \<ge> fvg_low f)) \<and>
            (invalidated f \<longleftrightarrow> (\<exists>j. i < j \<and> j < length w \<and> bar_close (w ! j) > fvg_high f))))"
proof -
  have nonempty: "gap_up w i \<or> gap_down w i"
  proof (rule ccontr)
    assume "\<not> (gap_up w i \<or> gap_down w i)"
    then have "fvg_step w i [] = []" by (simp only: fvg_step_cases de_Morgan_disj if_False)
    with i show False by simp
  qed
  show "filled f = invalidated f"
  proof (cases "gap_up w i")
    case True
    show ?thesis by (rule fvg_step_up_fields(5) [OF True i])
  next
    case False
    with nonempty have "gap_down w i" by simp
    then show ?thesis by (rule fvg_step_down_fields(5) [OF False _ i])
  qed
  show "fvg_timestamp f = bar_timestamp (w ! i) \<and>
          ((direction f = ''bullish'' \<and> fvg_low f = bar_high (w ! (i - 2)) \<and>
            fvg_high f = bar_low (w ! i) \<and>
            (mitigated f \<longleftrightarrow> (\<exists>j. i < j \<and> j < length w \<and> bar_low (w ! j) \<le> fvg_high f)) \<and>
            (invalidated f \<longleftrightarrow> (\<exists>j. i < j \<and> j < length w \<and> bar_close (w ! j) < fvg_low f)))
         \<or> (direction f = ''bearish'' \<and> fvg_high f = bar_low (w ! (i - 2)) \<and>
            fvg_low f = bar_high (w ! i) \<and>
            (mitigated f \<longleftrightarrow> (\<exists>j. i < j \<and> j < length w \<and> bar_high (w ! j) \<ge> fvg_low f)) \<and>
            (invalidated f \<longleftrightarrow> (\<exists>j. i < j \<and> j < length w \<and> bar_close (w ! j) > fvg_high f))))"
  proof (cases "gap_up w i")
    case True
    note F = fvg_step_up_fields [OF True i]
    show ?thesis
      apply (rule conjI, rule F(4), rule disjI1)
      apply (simp only: F simp_thms)
      done
  next
    case False
    with nonempty have d: "gap_down w i" by simp
    note F = fvg_step_down_fields [OF False d i]
    show ?thesis
      apply (rule conjI, rule F(4), rule disjI2)
      apply (simp only: F simp_thms)
      done
  qed
qed

text \<open>
  Claim C4, as the code has it. Every emitted gap has a forming triple ending at some index
  \<open>i\<close> of the scanned window. Its \<open>mitigated\<close> flag is true iff some bar after \<open>i\<close> has
  \<open>low \<le> gap_high\<close> (bullish) or \<open>high \<ge> gap_low\<close> (bearish): a one-sided test, so a
  bar lying wholly beyond the gap on the adverse side also sets it. Its \<open>invalidated\<close> flag
  is true iff some bar after \<open>i\<close> closes below \<open>gap_low\<close> (bullish) or above \<open>gap_high\<close>
  (bearish). \<open>filled\<close> equals \<open>invalidated\<close>. Appending later bars never turns a flag that
  was true back to false, whatever the lookback: when \<open>k\<close> bars of the old window have left
  the window of the longer series and the forming triple is still inside it, the gap
  emitted there for the same triple has the same bounds and timestamp and keeps every flag
  that was set (a gap whose triple has left the window is not emitted any more). While the
  whole series stays inside the lookback, the gaps already emitted are a prefix of the new
  result.
\<close>

theorem fvg_flags_from_later_bars:
  assumes f: "f \<in> set (detect_fvgs df0 lookback)" and w: "w = tail_rows lookback df0"
  shows "filled f = invalidated f
    \<and> (\<exists>i. 2 \<le> i \<and> i < length w \<and> (fvg_timestamp f = bar_timestamp (w ! i) \<and>
          ((direction f = ''bullish'' \<and> fvg_low f = bar_high (w ! (i - 2)) \<and>
            fvg_high f = bar_low (w ! i) \<and>
            (mitigated f \<longleftrightarrow> (\<exists>j. i < j \<and> j < length w \<and> bar_low (w ! j) \<le> fvg_high f)) \<and>
            (invalidated f \<longleftrightarrow> (\<exists>j. i < j \<and> j < length w \<and> bar_close (w ! j) < fvg_low f)))
         \<or> (direction f = ''bearish'' \<and> fvg_high f = bar_low (w ! (i - 2)) \<and>
            fvg_low f = bar_high (w ! i) \<and>
            (mitigated f \<longleftrightarrow> (\<exists>j. i < j \<and> j < length w \<and> bar_high (w ! j) \<ge> fvg_low f)) \<and>
            (invalidated f \<longleftrightarrow> (\<exists>j. i < j \<and> j < length w \<and> bar_close (w ! j) > fvg_high f)))))
         \<and> (\<forall>ext k. k = length w + length ext - length (tail_rows lookback (df0 @ ext))
                    \<and> k + 2 \<le> i \<longrightarrow>
               (\<exists>g \<in> set (detect_fvgs (df0 @ ext) lookback).
                  fvg_step (tail_rows lookback (df0 @ ext)) (i - k) [] = [g] \<and> flags_kept f g)))
    \<and> (\<forall>ext. int (length df0 + length ext) \<le> lookback \<longrightarrow>
          list_all2 flags_kept (detect_fvgs df0 lookback)
            (take (length (detect_fvgs df0 lookback)) (detect_fvgs (df0 @ ext) lookback)))"
proof -
  from detect_fvgs_member [OF f w]
  obtain i where i: "2 \<le> i" "i < length w" "fvg_step w i [] = [f]" by blast
  have len: "10 \<le> length df0"
    using f by (cases "length df0 < 10") (simp_all add: detect_fvgs_def)
  note a = fvg_step_flags(1) [OF i(3)]
  note b = fvg_step_flags(2) [OF i(3)]
  have p: "\<forall>ext k. k = length w + length ext - length (tail_rows lookback (df0 @ ext))
                    \<and> k + 2 \<le> i \<longrightarrow>
               (\<exists>g \<in> set (detect_fvgs (df0 @ ext) lookback).
                  fvg_step (tail_rows lookback (df0 @ ext)) (i - k) [] = [g] \<and> flags_kept f g)"
  proof (intro allI impI)
    fix ext :: "bar list" and k
    assume k: "k = length w + length ext - length (tail_rows lookback (df0 @ ext))
                    \<and> k + 2 \<le> i"
    from fvg_persists [OF i(3) [unfolded w] i(2) [unfolded w] k [THEN conjunct1, unfolded w]
        k [THEN conjunct2] len]
    show "\<exists>g \<in> set (detect_fvgs (df0 @ ext) lookback).
                  fvg_step (tail_rows lookback (df0 @ ext)) (i - k) [] = [g] \<and> flags_kept f g"
      by blast
  qed
  have e: "\<forall>ext. int (length df0 + length ext) \<le> lookback \<longrightarrow>
          list_all2 flags_kept (detect_fvgs df0 lookback)
            (take (length (detect_fvgs df0 lookback)) (detect_fvgs (df0 @ ext) lookback))"
    by (intro allI impI) (rule detect_fvgs_extend)
  from conjI [OF i(1) conjI [OF i(2) conjI [OF b p]]]
  have "\<exists>i. 2 \<le> i \<and> i < length w \<and> (fvg_timestamp f = bar_timestamp (w ! i) \<and>
          ((direction f = ''bullish'' \<and> fvg_low f = bar_high (w ! (i - 2)) \<and>
            fvg_high f = bar_low (w ! i) \<and>
            (mitigated f \<longleftrightarrow> (\<exists>j. i < j \<and> j < length w \<and> bar_low (w ! j) \<le> fvg_high f)) \<and>
            (invalidated f \<longleftrightarrow> (\<exists>j. i < j \<and> j < length w \<and> bar_close (w ! j) < fvg_low f)))
         \<or> (direction f = ''bearish'' \<and> fvg_high f = bar_low (w ! (i - 2)) \<and>
            fvg_low f = bar_high (w ! i) \<and>
            (mitigated f \<longleftrightarrow> (\<exists>j. i < j \<and> j < length w \<and> bar_high (w ! j) \<ge> fvg_low f)) \<and>
            (invalidated f \<longleftrightarrow> (\<exists>j. i < j \<and> j < length w \<and> bar_close (w ! j) > fvg_high f)))))
         \<and> (\<forall>ext k. k = length w + length ext - length (tail_rows lookback (df0 @ ext))
                    \<and> k + 2 \<le> i \<longrightarrow>
               (\<exists>g \<in> set (detect_fvgs (df0 @ ext) lookback).
                  fvg_step (tail_rows lookback (df0 @ ext)) (i - k) [] = [g] \<and> flags_kept f g))"
    by (rule exI [where x = i])
  with a e show ?thesis by (intro conjI)
qed

lemma example_gap_below_fvgs:
  "detect_fvgs example_gap_below_bars 100 =
     [\<lparr>fvg_high = 10.5, fvg_low = 10, fvg_timestamp = 0, gap_size = 0.5,
       direction = ''bullish'', filled = True, mitigated = True, invalidated = True\<rparr>]"
  by (simp add: detect_fvgs_def example_gap_below_bars_def tail_rows_def
      fvg_step_def mk_bar_def upt_rec numeral_nat nth_append Let_def)

theorem fvg_flags_from_later_bars_witness:
  "hd (detect_fvgs example_gap_below_bars 100) \<in> set (detect_fvgs example_gap_below_bars 100)
   \<and> filled (hd (detect_fvgs example_gap_below_bars 100)) =
       invalidated (hd (detect_fvgs example_gap_below_bars 100))"
proof -
  have m: "hd (detect_fvgs example_gap_below_bars 100) \<in> set (detect_fvgs example_gap_below_bars 100)"
    by (simp add: example_gap_below_fvgs)
  from fvg_flags_from_later_bars [OF m refl, THEN conjunct1] m show ?thesis by simp
qed

text \<open>
  The gap \<open>[10, 10.5]\<close> forms at bars 6 to 8; the only later bar has high 9, wholly below
  the gap, and the gap is reported mitigated all the same.
\<close>

theorem mitigated_without_touch_counterexample:
  "length example_gap_below_bars = 10
   \<and> detect_fvgs example_gap_below_bars 100 =
       [\<lparr>fvg_high = 10.5, fvg_low = 10, fvg_timestamp = 0, gap_size = 0.5,
         direction = ''bullish'', filled = True, mitigated = True, invalidated = True\<rparr>]
   \<and> bar_high (example_gap_below_bars ! 8) = 16 \<and> bar_low (example_gap_below_bars ! 8) = 10.5
   \<and> bar_high (example_gap_below_bars ! 6) = 10
   \<and> bar_high (example_gap_below_bars ! 9) < 10"
  by (simp add: example_gap_below_fvgs)
     (simp add: example_gap_below_bars_def mk_bar_def nth_append)

section \<open>Verification: dealing range\<close>

text \<open>
  Claim C6. The dealing range built from \<open>high\<close> and \<open>low\<close> has equilibrium
  \<open>low + 0.5 (high - low)\<close>, premium \<open>low + 0.618 (high - low)\<close> and discount
  \<open>low + 0.382 (high - low)\<close>; when \<open>high > low\<close> then discount < equilibrium < premium;
  and \<open>high = 110\<close>, \<open>low = 100\<close> give 105, 106.18 and 103.82.
\<close>

theorem step3_dealing_range_zones:
  "dr_equilibrium (step3_dealing_range high low src) = low + 0.5 * (high - low)
   \<and> dr_premium (step3_dealing_range high low src) = low + 0.618 * (high - low)
   \<and> dr_discount (step3_dealing_range high low src) = low + 0.382 * (high - low)
   \<and> (high > low \<longrightarrow>
        dr_discount (step3_dealing_range high low src) < dr_equilibrium (step3_dealing_range high low src)
        \<and> dr_equilibrium (step3_dealing_range high low src) < dr_premium (step3_dealing_range high low src))
   \<and> dr_equilibrium (step3_dealing_range 110 100 src) = 105
   \<and> dr_premium (step3_dealing_range 110 100 src) = 106.18
   \<and> dr_discount (step3_dealing_range 110 100 src) = 103.82"
  by (simp add: step3_dealing_range_def Let_def)

theorem step3_dealing_range_zones_witness:
  "(110::real) > 100
   \<and> dr_discount (step3_dealing_range 110 100 ''prev_day'') < dr_equilibrium (step3_dealing_range 110 100 ''prev_day'')
   \<and> dr_equilibrium (step3_dealing_range 110 100 ''prev_day'') < dr_premium (step3_dealing_range 110 100 ''prev_day'')"
  using step3_dealing_range_zones [of 110 100 "''prev_day''"] by simp

section \<open>Verification: plan validator\<close>

lemma validate_complete_plan:
  assumes "eh \<noteq> 0" "el \<noteq> 0" "sl \<noteq> 0"
  shows "validate_plan_status (Some (mk_plan eh el sl lvl)) price dir =
     (case check_invalidation (Some lvl) sl price dir of
        Inl e \<Rightarrow> Inl e
      | Inr (Some r) \<Rightarrow> Inr r
      | Inr None \<Rightarrow> Inr (check_entry_zone eh el price dir))"
  using assms by (simp add: validate_plan_status_def mk_plan_def truthy_def)

text \<open>
  Claim C2, as the code has it. For a scenario whose entry high, entry low and stop are
  present and nonzero and whose invalidation is present, direction long returns
  INVALIDATED iff \<open>price \<le> invalidation\<close> or \<open>price \<le> stop_loss\<close> (checked before the entry
  zone); otherwise ACTIVE when \<open>entry_low \<le> price \<le> entry_high\<close>; otherwise WAITING when
  \<open>price > entry_high\<close>; otherwise ACTIVE. Any other direction is handled as short, with
  the mirrored rule. Entry zone 100 to 101, stop 98, invalidation 97: price 100.5 is
  ACTIVE, price 97.5 is INVALIDATED.
\<close>

theorem validate_plan_status_rule:
  assumes "eh \<noteq> 0" and "el \<noteq> 0" and "sl \<noteq> 0"
  shows "returned_status (validate_plan_status (Some (mk_plan eh el sl lvl)) price ''long'') =
           Some (if price \<le> lvl \<or> price \<le> sl then INVALIDATED
                 else if el \<le> price \<and> price \<le> eh then ACTIVE
                 else if price > eh then WAITING
                 else ACTIVE)
    \<and> (dir \<noteq> ''long'' \<longrightarrow>
         returned_status (validate_plan_status (Some (mk_plan eh el sl lvl)) price dir) =
           Some (if price \<ge> lvl \<or> price \<ge> sl then INVALIDATED
                 else if el \<le> price \<and> price \<le> eh then ACTIVE
                 else if price < el then WAITING
                 else ACTIVE))
    \<and> validate_plan_status (Some (mk_plan 101 100 98 97)) 100.5 ''long'' =
          Inr (ACTIVE, Price_in_entry_zone)
    \<and> validate_plan_status (Some (mk_plan 101 100 98 97)) 97.5 ''long'' =
          Inr (INVALIDATED, Price_hit_stop_loss 98)"
proof (intro conjI impI)
  show "returned_status (validate_plan_status (Some (mk_plan eh el sl lvl)) price ''long'') =
           Some (if price \<le> lvl \<or> price \<le> sl then INVALIDATED
                 else if el \<le> price \<and> price \<le> eh then ACTIVE
                 else if price > eh then WAITING
                 else ACTIVE)"
    by (simp add: validate_complete_plan [OF assms] check_invalidation_def check_entry_zone_def
        returned_status_def)
next
  assume "dir \<noteq> ''long''"
  then show "returned_status (validate_plan_status (Some (mk_plan eh el sl lvl)) price dir) =
           Some (if price \<ge> lvl \<or> price \<ge> sl then INVALIDATED
                 else if el \<le> price \<and> price \<le> eh then ACTIVE
                 else if price < el then WAITING
                 else ACTIVE)"
    by (simp add: validate_complete_plan [OF assms] check_invalidation_def check_entry_zone_def
        returned_status_def)
next
  show "validate_plan_status (Some (mk_plan 101 100 98 97)) 100.5 ''long'' =
          Inr (ACTIVE, Price_in_entry_zone)"
    by (simp add: validate_complete_plan check_invalidation_def check_entry_zone_def)
next
  show "validate_plan_status (Some (mk_plan 101 100 98 97)) 97.5 ''long'' =
          Inr (INVALIDATED, Price_hit_stop_loss 98)"
    by (simp add: validate_complete_plan check_invalidation_def check_entry_zone_def)
qed

theorem validate_plan_status_rule_witness:
  "(101::real) \<noteq> 0 \<and> (100::real) \<noteq> 0 \<and> (98::real) \<noteq> 0 \<and> ''short'' \<noteq> ''long''
   \<and> returned_status (validate_plan_status (Some (mk_plan 101 100 98 97)) 102 ''long'') = Some WAITING
   \<and> (103::real) \<noteq> 0
   \<and> returned_status (validate_plan_status (Some (mk_plan 101 100 103 104)) 99 ''short'') = Some WAITING"
  using validate_plan_status_rule [where eh = 101 and el = 100 and sl = 98 and lvl = 97
      and price = 102 and dir = "''short''"]
    validate_plan_status_rule [where eh = 101 and el = 100 and sl = 103 and lvl = 104
      and price = 99 and dir = "''short''"]
  by simp

text \<open>
  A stop of zero is a present number, and Python reads it as false: with entry zone 2 to
  2, stop 0, invalidation -0.5 and price 2 the validator answers N/A, where the rule of the
  claim gives ACTIVE.
\<close>

theorem zero_stop_counterexample:
  "validate_plan_status (Some (mk_plan 2 2 0 (- 0.5))) 2 ''long'' = Inr (NA, Incomplete_plan_data)
   \<and> \<not> ((2::real) \<le> - 0.5 \<or> (2::real) \<le> 0) \<and> (2::real) \<le> 2"
  by (simp add: validate_plan_status_def mk_plan_def truthy_def)

text \<open>
  Claim C10. Whatever the scenario, the price and the direction, a status the validator
  returns is one of N/A, INVALIDATED, ACTIVE and WAITING; MISSED is never returned.
\<close>

theorem validate_plan_status_never_missed:
  assumes "validate_plan_status pl price dir = Inr (s, m)"
  shows "s \<in> {NA, INVALIDATED, ACTIVE, WAITING} \<and> s \<noteq> MISSED"
proof -
  have inv: "\<And>v sl r. check_invalidation v sl price dir = Inr (Some r) \<Longrightarrow> fst r = INVALIDATED"
    by (auto simp: check_invalidation_def split: option.splits if_splits)
  have zone: "\<And>eh el. fst (check_entry_zone eh el price dir) \<in> {ACTIVE, WAITING}"
    by (simp add: check_entry_zone_def)
  have "s \<in> {NA, INVALIDATED, ACTIVE, WAITING}"
  proof (cases pl)
    case None
    with assms show ?thesis by (simp add: validate_plan_status_def)
  next
    case (Some p)
    show ?thesis
    proof (cases "truthy (plan_entry_high p) \<and> truthy (plan_entry_low p) \<and> truthy (plan_stop_loss p)")
      case False
      with assms Some show ?thesis by (auto simp: validate_plan_status_def)
    next
      case True
      then obtain eh el sl where f: "plan_entry_high p = Some eh" "plan_entry_low p = Some el"
          "plan_stop_loss p = Some sl"
        by (auto simp: truthy_def split: option.splits)
      show ?thesis
      proof (cases "check_invalidation (plan_invalidation p) sl price dir")
        case (Inl e)
        with assms Some True f show ?thesis by (simp add: validate_plan_status_def)
      next
        case (Inr o1)
        show ?thesis
        proof (cases o1)
          case None
          with assms Some True f Inr have "(s, m) = check_entry_zone eh el price dir"
            by (simp add: validate_plan_status_def)
          with zone [of eh el] show ?thesis by (metis fst_conv insert_iff empty_iff)
        next
          case (Some r)
          with assms \<open>pl = Some p\<close> True f Inr have "(s, m) = r"
            by (simp add: validate_plan_status_def)
          with inv [of "plan_invalidation p" sl r] Inr Some show ?thesis by auto
        qed
      qed
    qed
  qed
  then show ?thesis by auto
qed

theorem validate_plan_status_never_missed_witness:
  "validate_plan_status (Some (mk_plan 101 100 98 97)) 100.5 ''long'' = Inr (ACTIVE, Price_in_entry_zone)
   \<and> ACTIVE \<in> {NA, INVALIDATED, ACTIVE, WAITING} \<and> ACTIVE \<noteq> MISSED"
proof -
  have r: "validate_plan_status (Some (mk_plan 101 100 98 97)) 100.5 ''long'' =
      Inr (ACTIVE, Price_in_entry_zone)"
    by (simp add: validate_complete_plan check_invalidation_def check_entry_zone_def)
  from validate_plan_status_never_missed [OF r] r show ?thesis by simp
qed

section \<open>Verification: day type\<close>

lemma step5_scores_spec:
  "step5_scores htf_bias sweeps order_blocks fvgs =
     \<lparr>trend_score = spec_trend_score htf_bias sweeps fvgs,
      reversal_score = spec_reversal_score sweeps order_blocks,
      consolidation_score = spec_consolidation_score htf_bias sweeps\<rparr>"
proof -
  have strong: "(length (filter (\<lambda>ob. ob_strength ob > 0.7) order_blocks) > 0) =
      (\<exists>ob \<in> set order_blocks. ob_strength ob > 0.7)"
    by (simp add: filter_empty_conv)
  show ?thesis
    unfolding step5_scores_def Let_def strong
    by (simp add: spec_trend_score_def spec_reversal_score_def spec_consolidation_score_def
        spec_both_sides_swept_def spec_one_side_swept_def list_ex_iff)
qed

text \<open>
  Claim C5. The three scores of the classifier are the stated sums (bias not NEUTRAL:
  trend + 2, else consolidation + 2; both sides swept: reversal + 3, one side: trend + 2,
  none: consolidation + 2; an order block stronger than 0.7: reversal + 1; more than two
  unfilled gaps: trend + 1), and the day type is trend iff the trend score is at least
  one above both others, else reversal iff the reversal score is at least one above both
  others, else consolidation.
\<close>

theorem step5_day_type_scores:
  "trend_score (step5_scores htf_bias sweeps order_blocks fvgs) = spec_trend_score htf_bias sweeps fvgs
   \<and> reversal_score (step5_scores htf_bias sweeps order_blocks fvgs) = spec_reversal_score sweeps order_blocks
   \<and> consolidation_score (step5_scores htf_bias sweeps order_blocks fvgs) = spec_consolidation_score htf_bias sweeps
   \<and> (step5_day_type htf_bias sweeps order_blocks fvgs = ''trend'' \<longleftrightarrow>
        spec_trend_score htf_bias sweeps fvgs \<ge>
          max (spec_reversal_score sweeps order_blocks) (spec_consolidation_score htf_bias sweeps) + 1)
   \<and> (step5_day_type htf_bias sweeps order_blocks fvgs = ''reversal'' \<longleftrightarrow>
        \<not> spec_trend_score htf_bias sweeps fvgs \<ge>
          max (spec_reversal_score sweeps order_blocks) (spec_consolidation_score htf_bias sweeps) + 1
        \<and> spec_reversal_score sweeps order_blocks \<ge>
          max (spec_trend_score htf_bias sweeps fvgs) (spec_consolidation_score htf_bias sweeps) + 1)
   \<and> (step5_day_type htf_bias sweeps order_blocks fvgs = ''consolidation'' \<longleftrightarrow>
        \<not> spec_trend_score htf_bias sweeps fvgs \<ge>
          max (spec_reversal_score sweeps order_blocks) (spec_consolidation_score htf_bias sweeps) + 1
        \<and> \<not> spec_reversal_score sweeps order_blocks \<ge>
          max (spec_trend_score htf_bias sweeps fvgs) (spec_consolidation_score htf_bias sweeps) + 1)"
  unfolding step5_day_type_def Let_def step5_scores_spec
  by simp

theorem step5_day_type_scores_witness:
  "step5_day_type BULLISH [mk_sweep ''BSL''] [] [] = ''trend''
   \<and> trend_score (step5_scores BULLISH [mk_sweep ''BSL''] [] []) = 4
   \<and> step5_day_type NEUTRAL [mk_sweep ''BSL'', mk_sweep ''SSL''] [] [] = ''reversal''
   \<and> step5_day_type NEUTRAL [] [] [] = ''consolidation''"
proof -
  have "spec_trend_score BULLISH [mk_sweep ''BSL''] [] = 4"
       "spec_reversal_score [mk_sweep ''BSL''] [] = 0"
       "spec_consolidation_score BULLISH [mk_sweep ''BSL''] = 0"
       "spec_trend_score NEUTRAL [mk_sweep ''BSL'', mk_sweep ''SSL''] [] = 0"
       "spec_reversal_score [mk_sweep ''BSL'', mk_sweep ''SSL''] [] = 3"
       "spec_consolidation_score NEUTRAL [mk_sweep ''BSL'', mk_sweep ''SSL''] = 2"
       "spec_trend_score NEUTRAL [] [] = 0"
       "spec_reversal_score [] [] = 0"
       "spec_consolidation_score NEUTRAL [] = 4"
    by (simp_all add: spec_trend_score_def spec_reversal_score_def spec_consolidation_score_def
        spec_both_sides_swept_def spec_one_side_swept_def mk_sweep_def)
  then show ?thesis
    using step5_day_type_scores [of BULLISH "[mk_sweep ''BSL'']" "[]" "[]"]
      step5_day_type_scores [of NEUTRAL "[mk_sweep ''BSL'', mk_sweep ''SSL'']" "[]" "[]"]
      step5_day_type_scores [of NEUTRAL "[]" "[]" "[]"]
    by simp
qed

section \<open>Verification: market structure\<close>

lemma six_way_if:
  "(if a then l1 else if b then l2 else if c then l3 else if d then l4
    else if e then l5 else l6) \<in> {l1, l2, l3, l4, l5, l6}"
  by simp

text \<open>
  Claim C9, as the code has it. The analyzer returns \<open>insufficient_data\<close> exactly when the
  series has fewer than 30 bars; from 30 bars on it returns one of the six structure
  labels.
\<close>

theorem analyze_market_structure_sentinel:
  "(analyze_market_structure df = ''insufficient_data'' \<longleftrightarrow> length df < 30)
   \<and> (30 \<le> length df \<longrightarrow>
        analyze_market_structure df \<in>
          {''higher_highs_higher_lows'', ''higher_highs'', ''lower_highs_lower_lows'',
           ''lower_lows'', ''ranging'', ''choppy''})"
proof -
  let ?labels = "{''higher_highs_higher_lows'', ''higher_highs'', ''lower_highs_lower_lows'',
           ''lower_lows'', ''ranging'', ''choppy''}"
  have sentinel: "''insufficient_data'' \<notin> ?labels" by simp
  have short: "analyze_market_structure df = ''insufficient_data''" if "length df < 30"
    using that by (simp only: analyze_market_structure_def if_True)
  have long: "analyze_market_structure df \<in> ?labels" if "30 \<le> length df"
  proof -
    from that have "\<not> length df < 30" by simp
    then show ?thesis
      unfolding analyze_market_structure_def Let_def
      by (simp only: if_False) (rule six_way_if)
  qed
  have iff: "analyze_market_structure df = ''insufficient_data'' \<longleftrightarrow> length df < 30"
  proof
    assume eq: "analyze_market_structure df = ''insufficient_data''"
    show "length df < 30"
    proof (rule ccontr)
      assume "\<not> length df < 30"
      then have "30 \<le> length df" by simp
      then have "analyze_market_structure df \<in> ?labels" by (rule long)
      then have "''insufficient_data'' \<in> ?labels" by (simp only: eq)
      with sentinel show False ..
    qed
  next
    assume "length df < 30"
    then show "analyze_market_structure df = ''insufficient_data''" by (rule short)
  qed
  from long have "30 \<le> length df \<longrightarrow> analyze_market_structure df \<in> ?labels" by (rule impI)
  with iff show ?thesis by (rule conjI)
qed

theorem analyze_market_structure_sentinel_witness:
  "30 \<le> length (replicate 30 (mk_bar 10 10 10 10))
   \<and> analyze_market_structure (replicate 30 (mk_bar 10 10 10 10)) \<noteq> ''insufficient_data''
   \<and> analyze_market_structure (replicate 30 (mk_bar 10 10 10 10)) \<in>
          {''higher_highs_higher_lows'', ''higher_highs'', ''lower_highs_lower_lows'',
           ''lower_lows'', ''ranging'', ''choppy''}"
  using analyze_market_structure_sentinel [of "replicate 30 (mk_bar 10 10 10 10)"]
  by simp

text \<open>Twenty bars are still answered with the sentinel.\<close>

theorem twenty_bars_counterexample:
  "length (replicate 20 (mk_bar 10 10 10 10)) = 20
   \<and> analyze_market_structure (replicate 20 (mk_bar 10 10 10 10)) = ''insufficient_data''"
  by (simp add: analyze_market_structure_def)

section \<open>Verification: order blocks\<close>

lemma obs_overlap_sym: "obs_overlap a b \<longleftrightarrow> obs_overlap b a"
  by (auto simp: obs_overlap_def)

lemma no_overlap_disjoint:
  "\<not> obs_overlap a b \<Longrightarrow> {ob_low a..ob_high a} \<inter> {ob_low b..ob_high b} = {}"
  by (auto simp: obs_overlap_def)

lemma prune_step_set:
  "set filtered \<subseteq> set (prune_step ob filtered)"
  "set (prune_step ob filtered) \<subseteq> insert ob (set filtered)"
  by (auto simp: prune_step_def Let_def)

lemma fold_prune_keeps: "set acc \<subseteq> set (fold prune_step xs acc)"
proof (induction xs arbitrary: acc)
  case Nil
  show ?case by simp
next
  case (Cons x xs)
  have "set acc \<subseteq> set (prune_step x acc)" by (rule prune_step_set)
  also have "\<dots> \<subseteq> set (fold prune_step xs (prune_step x acc))" by (rule Cons.IH)
  finally show ?case by simp
qed

lemma fold_prune_subset: "set (fold prune_step xs acc) \<subseteq> set acc \<union> set xs"
proof (induction xs arbitrary: acc)
  case Nil
  show ?case by simp
next
  case (Cons x xs)
  have "set (fold prune_step xs (prune_step x acc)) \<subseteq> set (prune_step x acc) \<union> set xs"
    by (rule Cons.IH)
  also have "\<dots> \<subseteq> insert x (set acc) \<union> set xs"
    using prune_step_set(2) [of x acc] by blast
  finally show ?case by auto
qed

lemma prune_step_separate:
  assumes "sorted_wrt (\<lambda>a b. \<not> obs_overlap a b) acc"
  shows "sorted_wrt (\<lambda>a b. \<not> obs_overlap a b) (prune_step x acc)"
  using assms
  by (auto simp: prune_step_def Let_def sorted_wrt_append list_ex_iff obs_overlap_sym [of x])

lemma fold_prune_separate:
  "sorted_wrt (\<lambda>a b. \<not> obs_overlap a b) acc \<Longrightarrow>
   sorted_wrt (\<lambda>a b. \<not> obs_overlap a b) (fold prune_step xs acc)"
  by (induction xs arbitrary: acc) (simp_all add: prune_step_separate)

lemma fold_prune_covered:
  assumes "sorted (map (\<lambda>x. - ob_strength x) xs)"
    and "\<forall>a \<in> set acc. \<forall>x \<in> set xs. ob_strength x \<le> ob_strength a"
    and "y \<in> set xs"
  shows "y \<in> set (fold prune_step xs acc) \<or>
         (\<exists>r \<in> set (fold prune_step xs acc). ob_strength y \<le> ob_strength r \<and> obs_overlap y r)"
  using assms
proof (induction xs arbitrary: acc)
  case Nil
  then show ?case by simp
next
  case (Cons x xs)
  let ?acc = "prune_step x acc"
  let ?res = "fold prune_step xs ?acc"
  have keep: "set ?acc \<subseteq> set ?res" by (rule fold_prune_keeps)
  show ?case
  proof (cases "y = x")
    case True
    show ?thesis
    proof (cases "list_ex (\<lambda>e. obs_overlap x e) acc")
      case True
      then obtain e where e: "e \<in> set acc" "obs_overlap x e" by (auto simp: list_ex_iff)
      from e(1) Cons.prems(2) have "ob_strength x \<le> ob_strength e" by simp
      moreover from e(1) keep prune_step_set(1) [of acc x] have "e \<in> set ?res" by blast
      ultimately show ?thesis using e(2) \<open>y = x\<close> by auto
    next
      case False
      then have "x \<in> set ?acc" by (simp add: prune_step_def)
      with keep \<open>y = x\<close> show ?thesis by auto
    qed
  next
    case False
    with Cons.prems(3) have y: "y \<in> set xs" by simp
    have s: "sorted (map (\<lambda>x. - ob_strength x) xs)" using Cons.prems(1) by simp
    have b: "\<forall>a \<in> set ?acc. \<forall>z \<in> set xs. ob_strength z \<le> ob_strength a"
    proof (intro ballI)
      fix a z assume a: "a \<in> set ?acc" and z: "z \<in> set xs"
      from a prune_step_set(2) [of x acc] have "a = x \<or> a \<in> set acc" by blast
      then show "ob_strength z \<le> ob_strength a"
      proof
        assume "a = x"
        with Cons.prems(1) z show ?thesis by auto
      next
        assume "a \<in> set acc"
        with Cons.prems(2) z show ?thesis by simp
      qed
    qed
    from Cons.IH [OF s b y] show ?thesis by simp
  qed
qed

text \<open>
  Claim C7. Whatever the input list, no two blocks kept by the overlap pruning overlap
  (their price intervals \<open>[low, high]\<close> are pairwise disjoint), every kept block is a block
  of the input, every block that was pruned overlaps a kept block of greater or equal
  strength, and a block of greatest strength is kept.
\<close>

theorem remove_overlapping_obs_disjoint:
  "(\<forall>i j. i < j \<and> j < length (remove_overlapping_obs obs) \<longrightarrow>
       \<not> obs_overlap (remove_overlapping_obs obs ! i) (remove_overlapping_obs obs ! j)
       \<and> {ob_low (remove_overlapping_obs obs ! i)..ob_high (remove_overlapping_obs obs ! i)} \<inter>
         {ob_low (remove_overlapping_obs obs ! j)..ob_high (remove_overlapping_obs obs ! j)} = {})
   \<and> set (remove_overlapping_obs obs) \<subseteq> set obs
   \<and> (\<forall>ob \<in> set obs. ob \<notin> set (remove_overlapping_obs obs) \<longrightarrow>
         (\<exists>r \<in> set (remove_overlapping_obs obs).
            ob_strength ob \<le> ob_strength r \<and> obs_overlap ob r))
   \<and> (obs \<noteq> [] \<longrightarrow>
         (\<exists>r \<in> set (remove_overlapping_obs obs). \<forall>ob \<in> set obs. ob_strength ob \<le> ob_strength r))"
proof (cases "obs = []")
  case True
  then show ?thesis by (simp add: remove_overlapping_obs_def)
next
  case False
  let ?s = "sort_key (\<lambda>x. - ob_strength x) obs"
  let ?res = "remove_overlapping_obs obs"
  have res: "?res = fold prune_step ?s []"
    using False by (simp add: remove_overlapping_obs_def)
  have sorted: "sorted (map (\<lambda>x. - ob_strength x) ?s)" by simp
  have set_s: "set ?s = set obs" by simp
  have sep: "sorted_wrt (\<lambda>a b. \<not> obs_overlap a b) ?res"
    unfolding res by (rule fold_prune_separate) simp
  have p1: "\<forall>i j. i < j \<and> j < length ?res \<longrightarrow>
       \<not> obs_overlap (?res ! i) (?res ! j)
       \<and> {ob_low (?res ! i)..ob_high (?res ! i)} \<inter> {ob_low (?res ! j)..ob_high (?res ! j)} = {}"
  proof (intro allI impI)
    fix i j assume ij: "i < j \<and> j < length ?res"
    with sep have "\<not> obs_overlap (?res ! i) (?res ! j)"
      by (simp add: sorted_wrt_iff_nth_less)
    then show "\<not> obs_overlap (?res ! i) (?res ! j)
       \<and> {ob_low (?res ! i)..ob_high (?res ! i)} \<inter> {ob_low (?res ! j)..ob_high (?res ! j)} = {}"
      using no_overlap_disjoint by blast
  qed
  have p2: "set ?res \<subseteq> set obs"
    unfolding res using fold_prune_subset [of ?s "[]"] set_s by simp
  have p3: "\<forall>ob \<in> set obs. ob \<notin> set ?res \<longrightarrow>
         (\<exists>r \<in> set ?res. ob_strength ob \<le> ob_strength r \<and> obs_overlap ob r)"
  proof (intro ballI impI)
    fix ob assume "ob \<in> set obs" and out: "ob \<notin> set ?res"
    then have "ob \<in> set ?s" by simp
    from fold_prune_covered [OF sorted _ this, of "[]"] out
    show "\<exists>r \<in> set ?res. ob_strength ob \<le> ob_strength r \<and> obs_overlap ob r"
      unfolding res by simp
  qed
  have p4: "\<exists>r \<in> set ?res. \<forall>ob \<in> set obs. ob_strength ob \<le> ob_strength r"
  proof -
    from False have "?s \<noteq> []" by (metis set_s set_empty)
    then obtain h t where ht: "?s = h # t" by (cases ?s) auto
    have "h \<in> set (prune_step h [])" by (simp add: prune_step_def)
    with fold_prune_keeps [of "prune_step h []" t] have "h \<in> set ?res"
      unfolding res ht by auto
    moreover have "\<forall>ob \<in> set obs. ob_strength ob \<le> ob_strength h"
    proof
      fix ob assume "ob \<in> set obs"
      then have "ob \<in> set (h # t)" using set_s ht by simp
      moreover have "sorted (map (\<lambda>x. - ob_strength x) (h # t))" using sorted ht by simp
      ultimately show "ob_strength ob \<le> ob_strength h" by auto
    qed
    ultimately show ?thesis by blast
  qed
  from p1 p2 p3 p4 show ?thesis by blast
qed

text \<open>Three blocks: the weakest one overlaps the strongest and is pruned.\<close>

theorem remove_overlapping_obs_disjoint_witness:
  "remove_overlapping_obs [mk_ob 11 10 0.5, mk_ob 12 10.5 0.9, mk_ob 20 19 0.6] =
     [mk_ob 12 10.5 0.9, mk_ob 20 19 0.6]
   \<and> (0::nat) < 1
   \<and> 1 < length (remove_overlapping_obs [mk_ob 11 10 0.5, mk_ob 12 10.5 0.9, mk_ob 20 19 0.6])
   \<and> \<not> obs_overlap
         (remove_overlapping_obs [mk_ob 11 10 0.5, mk_ob 12 10.5 0.9, mk_ob 20 19 0.6] ! 0)
         (remove_overlapping_obs [mk_ob 11 10 0.5, mk_ob 12 10.5 0.9, mk_ob 20 19 0.6] ! 1)"
proof -
  let ?obs = "[mk_ob 11 10 0.5, mk_ob 12 10.5 0.9, mk_ob 20 19 0.6]"
  have ev: "remove_overlapping_obs ?obs = [mk_ob 12 10.5 0.9, mk_ob 20 19 0.6]"
    by (simp add: remove_overlapping_obs_def prune_step_def obs_overlap_def mk_ob_def)
  then have len: "(0::nat) < 1 \<and> 1 < length (remove_overlapping_obs ?obs)" by simp
  from remove_overlapping_obs_disjoint [of ?obs]
  have "\<forall>i j. i < j \<and> j < length (remove_overlapping_obs ?obs) \<longrightarrow>
       \<not> obs_overlap (remove_overlapping_obs ?obs ! i) (remove_overlapping_obs ?obs ! j)
       \<and> {ob_low (remove_overlapping_obs ?obs ! i)..ob_high (remove_overlapping_obs ?obs ! i)} \<inter>
         {ob_low (remove_overlapping_obs ?obs ! j)..ob_high (remove_overlapping_obs ?obs ! j)} = {}"
    by (rule conjunct1)
  with len have "\<not> obs_overlap (remove_overlapping_obs ?obs ! 0) (remove_overlapping_obs ?obs ! 1)"
    by blast
  with ev len show ?thesis by blast
qed

section \<open>Verification: liquidity zones\<close>

lemma apart_mono:
  assumes "apart tol a b" "0 < lz_price a" "lz_price a \<le> lz_price b" "lz_price b \<le> lz_price c"
  shows "apart tol a c"
proof -
  have "\<bar>lz_price b - lz_price a\<bar> / lz_price a \<le> \<bar>lz_price c - lz_price a\<bar> / lz_price a"
    using assms(2,3,4) by (intro divide_right_mono) auto
  with assms(1) show ?thesis by (simp add: apart_def)
qed

lemma merge_step_snoc:
  assumes inv: "merge_inv tol seen (bl @ [l])"
    and pos: "\<forall>x \<in> seen. 0 < lz_price x"
    and ge: "lz_price l \<le> lz_price zone"
  shows "\<exists>m. merge_step tol zone (bl @ [l]) = Inr m \<and> merge_inv tol (insert zone seen) m
             \<and> (last m = zone \<or> last m = l)"
proof -
  from inv have srt: "sorted (map lz_price (bl @ [l]))"
    and suc: "successively (apart_if_same_type tol) (bl @ [l])"
    and sub: "set (bl @ [l]) \<subseteq> seen"
    and rep: "\<forall>z \<in> seen. \<exists>r \<in> set (bl @ [l]). zone_type r = zone_type z \<and> lz_strength z \<le> lz_strength r"
    by (simp_all add: merge_inv_def)
  from sub have lin: "l \<in> seen" and blin: "set bl \<subseteq> seen" by simp_all
  with pos have lpos: "0 < lz_price l" by simp
  from srt have bl_srt: "sorted (map lz_price bl)"
    and bl_le: "\<forall>x \<in> set bl. lz_price x \<le> lz_price l"
    by (simp_all add: sorted_append)
  from suc have bl_suc: "successively (apart_if_same_type tol) bl"
    and bl_last: "bl \<noteq> [] \<longrightarrow> apart_if_same_type tol (last bl) l"
    by (auto simp: successively_append_iff)
  show ?thesis
  proof (cases "\<bar>lz_price zone - lz_price l\<bar> / lz_price l \<le> tol \<and> zone_type zone = zone_type l")
    case close: True
    show ?thesis
    proof (cases "lz_strength zone > lz_strength l")
      case True
      let ?m = "bl @ [zone]"
      have step: "merge_step tol zone (bl @ [l]) = Inr ?m"
        using close True lpos by (simp add: merge_step_def Let_def)
      have s1: "sorted (map lz_price ?m)"
        using bl_srt bl_le ge by (auto simp: sorted_append)
      have s2: "successively (apart_if_same_type tol) ?m"
      proof (cases "bl = []")
        case True
        then show ?thesis by simp
      next
        case False
        let ?p = "last bl"
        from False have pmem: "?p \<in> set bl" by simp
        with blin bl_le pos have ppos: "0 < lz_price ?p" and ple: "lz_price ?p \<le> lz_price l"
          by auto
        have "apart_if_same_type tol ?p zone"
          unfolding apart_if_same_type_def
        proof
          assume "zone_type ?p = zone_type zone"
          with close bl_last False have "apart tol ?p l" by (simp add: apart_if_same_type_def)
          then show "apart tol ?p zone"
            using ppos ple ge by (rule apart_mono)
        qed
        with bl_suc False show ?thesis by (simp add: successively_append_iff)
      qed
      have s3: "set ?m \<subseteq> insert zone seen"
        using blin by auto
      have s4: "\<forall>z \<in> insert zone seen. \<exists>r \<in> set ?m. zone_type r = zone_type z \<and> lz_strength z \<le> lz_strength r"
      proof
        fix z assume z: "z \<in> insert zone seen"
        show "\<exists>r \<in> set ?m. zone_type r = zone_type z \<and> lz_strength z \<le> lz_strength r"
        proof (cases "z = zone")
          case True
          then show ?thesis by simp
        next
          case False
          with z rep obtain r where r: "r \<in> set (bl @ [l])" "zone_type r = zone_type z"
              "lz_strength z \<le> lz_strength r" by blast
          from r(1) have "r \<in> set bl \<or> r = l" by auto
          then show ?thesis
          proof
            assume "r \<in> set bl"
            with r(2,3) show ?thesis by auto
          next
            assume "r = l"
            with r(2,3) close True have "zone_type zone = zone_type z \<and> lz_strength z \<le> lz_strength zone"
              by simp
            then show ?thesis by simp
          qed
        qed
      qed
      have "merge_inv tol (insert zone seen) ?m"
        unfolding merge_inv_def using s1 s2 s3 s4 by simp
      with step show ?thesis by simp
    next
      case False
      have step: "merge_step tol zone (bl @ [l]) = Inr (bl @ [l])"
        using close False lpos by (simp add: merge_step_def Let_def)
      have s4: "\<forall>z \<in> insert zone seen. \<exists>r \<in> set (bl @ [l]). zone_type r = zone_type z \<and> lz_strength z \<le> lz_strength r"
      proof
        fix z assume z: "z \<in> insert zone seen"
        show "\<exists>r \<in> set (bl @ [l]). zone_type r = zone_type z \<and> lz_strength z \<le> lz_strength r"
        proof (cases "z = zone")
          case True
          with close False have "zone_type l = zone_type z \<and> lz_strength z \<le> lz_strength l"
            by simp
          then show ?thesis by simp
        next
          case False
          with z rep show ?thesis by blast
        qed
      qed
      have "merge_inv tol (insert zone seen) (bl @ [l])"
        unfolding merge_inv_def using srt suc sub s4 by auto
      with step show ?thesis by simp
    qed
  next
    case far: False
    let ?m = "(bl @ [l]) @ [zone]"
    have step: "merge_step tol zone (bl @ [l]) = Inr ?m"
      using far lpos by (auto simp: merge_step_def Let_def)
    have s1: "sorted (map lz_price ?m)"
      using srt bl_le ge by (auto simp: sorted_append)
    have "apart_if_same_type tol l zone"
      using far by (auto simp: apart_if_same_type_def apart_def)
    with suc have s2: "successively (apart_if_same_type tol) ?m"
      by (simp add: successively_append_iff)
    have s3: "set ?m \<subseteq> insert zone seen" using sub by auto
    have s4: "\<forall>z \<in> insert zone seen. \<exists>r \<in> set ?m. zone_type r = zone_type z \<and> lz_strength z \<le> lz_strength r"
    proof
      fix z assume z: "z \<in> insert zone seen"
      show "\<exists>r \<in> set ?m. zone_type r = zone_type z \<and> lz_strength z \<le> lz_strength r"
      proof (cases "z = zone")
        case True
        then show ?thesis by simp
      next
        case False
        with z rep obtain r where "r \<in> set (bl @ [l])" "zone_type r = zone_type z"
            "lz_strength z \<le> lz_strength r" by blast
        then show ?thesis by auto
      qed
    qed
    have "merge_inv tol (insert zone seen) ?m"
      unfolding merge_inv_def using s1 s2 s3 s4 by simp
    with step show ?thesis by simp
  qed
qed

lemma merge_step_inv:
  assumes inv: "merge_inv tol seen merged"
    and pos: "\<forall>x \<in> seen. 0 < lz_price x"
    and ge: "lz_price (last merged) \<le> lz_price zone"
  shows "\<exists>m. merge_step tol zone merged = Inr m \<and> merge_inv tol (insert zone seen) m
             \<and> (last m = zone \<or> last m = last merged)"
proof -
  from inv have "merged \<noteq> []" by (simp add: merge_inv_def)
  then obtain bl l where m: "merged = bl @ [l]" by (metis append_butlast_last_id)
  from merge_step_snoc [of tol seen bl l zone] inv pos ge show ?thesis
    unfolding m by simp
qed

lemma merge_loop_inv:
  assumes "merge_inv tol seen merged"
    and "\<forall>x \<in> seen \<union> set zones. 0 < lz_price x"
    and "sorted (map lz_price zones)"
    and "\<forall>z \<in> set zones. lz_price (last merged) \<le> lz_price z"
  shows "\<exists>res. merge_loop tol zones merged = Inr res \<and> merge_inv tol (seen \<union> set zones) res"
  using assms
proof (induction zones arbitrary: seen merged)
  case Nil
  then show ?case by simp
next
  case (Cons z zs)
  from Cons.prems(2) have pos: "\<forall>x \<in> seen. 0 < lz_price x" by simp
  from Cons.prems(4) have ge: "lz_price (last merged) \<le> lz_price z" by simp
  from merge_step_inv [OF Cons.prems(1) pos ge]
  obtain m where m: "merge_step tol z merged = Inr m" "merge_inv tol (insert z seen) m"
      "last m = z \<or> last m = last merged" by blast
  have p2: "\<forall>x \<in> insert z seen \<union> set zs. 0 < lz_price x" using Cons.prems(2) by simp
  have p3: "sorted (map lz_price zs)" using Cons.prems(3) by simp
  have p4: "\<forall>y \<in> set zs. lz_price (last m) \<le> lz_price y"
  proof
    fix y assume y: "y \<in> set zs"
    with Cons.prems(3) have "lz_price z \<le> lz_price y" by auto
    moreover from y Cons.prems(4) have "lz_price (last merged) \<le> lz_price y" by simp
    ultimately show "lz_price (last m) \<le> lz_price y" using m(3) by auto
  qed
  from Cons.IH [OF m(2) p2 p3 p4]
  obtain res where "merge_loop tol zs m = Inr res" "merge_inv tol (insert z seen \<union> set zs) res"
    by blast
  with m(1) show ?case by simp
qed

lemma merge_nearby_zones_inv:
  assumes pos: "\<forall>z \<in> set zones. 0 < lz_price z" and ne: "zones \<noteq> []"
  shows "\<exists>res. merge_nearby_zones zones tol = Inr res \<and> merge_inv tol (set zones) res"
proof -
  let ?s = "sort_key lz_price zones"
  have "?s \<noteq> []" using ne by (metis set_sort set_empty)
  then obtain first rest where s: "?s = first # rest" by (cases ?s) auto
  have srt: "sorted (map lz_price (first # rest))" by (metis s sorted_sort_key)
  have sets: "set zones = insert first (set rest)" by (metis s set_sort list.simps(15))
  have i0: "merge_inv tol {first} [first]" by (simp add: merge_inv_def)
  have p: "\<forall>x \<in> {first} \<union> set rest. 0 < lz_price x" using pos sets by simp
  have r: "sorted (map lz_price rest)" using srt by simp
  have g: "\<forall>z \<in> set rest. lz_price (last [first]) \<le> lz_price z" using srt by simp
  from merge_loop_inv [OF i0 p r g]
  obtain res where "merge_loop tol rest [first] = Inr res" "merge_inv tol ({first} \<union> set rest) res"
    by blast
  then show ?thesis using ne s sets by (simp add: merge_nearby_zones_def)
qed

lemma sorted_apart_pairs:
  assumes srt: "sorted (map lz_price res)"
    and suc: "successively (apart_if_same_type tol) res"
    and pos: "\<forall>z \<in> set res. 0 < lz_price z"
    and same: "\<forall>a \<in> set res. \<forall>b \<in> set res. zone_type a = zone_type b"
    and ij: "i < j" "j < length res"
  shows "apart tol (res ! i) (res ! j)"
proof -
  from ij have si: "Suc i < length res" by simp
  from successively_nth [OF suc si] same si
  have a: "apart tol (res ! i) (res ! Suc i)"
    by (simp add: apart_if_same_type_def)
  have le1: "lz_price (res ! i) \<le> lz_price (res ! Suc i)"
    using srt si by (simp add: sorted_iff_nth_mono)
  have le2: "lz_price (res ! Suc i) \<le> lz_price (res ! j)"
    using srt ij by (simp add: sorted_iff_nth_mono)
  have p: "0 < lz_price (res ! i)" using pos si by simp
  from a p le1 le2 show ?thesis by (rule apart_mono)
qed

text \<open>
  What the merge does guarantee. For zones with positive prices it returns a list, sorted
  by price, of zones of the input; two zones of the same type that are next to each other
  in it differ by more than the tolerance (0.2 percent by default) relative to the lower
  price, and so do any two zones of it when the input has a single zone type; every zone
  of the input is kept or replaced by a kept zone of the same type and of greater or equal
  strength.
\<close>

theorem merge_nearby_zones_spacing:
  assumes pos: "\<forall>z \<in> set zones. 0 < lz_price z"
  shows "\<exists>res. merge_nearby_zones zones tol = Inr res
    \<and> sorted (map lz_price res) \<and> set res \<subseteq> set zones
    \<and> (\<forall>i. Suc i < length res \<and> zone_type (res ! i) = zone_type (res ! Suc i) \<longrightarrow>
          \<bar>lz_price (res ! Suc i) - lz_price (res ! i)\<bar> / lz_price (res ! i) > tol)
    \<and> ((\<forall>a \<in> set zones. \<forall>b \<in> set zones. zone_type a = zone_type b) \<longrightarrow>
          (\<forall>i j. i < j \<and> j < length res \<longrightarrow>
             \<bar>lz_price (res ! j) - lz_price (res ! i)\<bar> / lz_price (res ! i) > tol))
    \<and> (\<forall>z \<in> set zones. \<exists>r \<in> set res. zone_type r = zone_type z \<and> lz_strength z \<le> lz_strength r)"
proof (cases "zones = []")
  case True
  then show ?thesis by (simp add: merge_nearby_zones_def)
next
  case False
  from merge_nearby_zones_inv [OF pos False, of tol]
  obtain res where res: "merge_nearby_zones zones tol = Inr res" and inv: "merge_inv tol (set zones) res"
    by blast
  from inv have srt: "sorted (map lz_price res)"
    and suc: "successively (apart_if_same_type tol) res" and sub: "set res \<subseteq> set zones"
    and rep: "\<forall>z \<in> set zones. \<exists>r \<in> set res. zone_type r = zone_type z \<and> lz_strength z \<le> lz_strength r"
    by (simp_all add: merge_inv_def)
  have adj: "\<forall>i. Suc i < length res \<and> zone_type (res ! i) = zone_type (res ! Suc i) \<longrightarrow>
          \<bar>lz_price (res ! Suc i) - lz_price (res ! i)\<bar> / lz_price (res ! i) > tol"
  proof (intro allI impI)
    fix i assume i: "Suc i < length res \<and> zone_type (res ! i) = zone_type (res ! Suc i)"
    then have "apart_if_same_type tol (res ! i) (res ! Suc i)"
      using successively_nth [OF suc] by blast
    with i show "\<bar>lz_price (res ! Suc i) - lz_price (res ! i)\<bar> / lz_price (res ! i) > tol"
      by (simp add: apart_if_same_type_def apart_def)
  qed
  have pairs: "(\<forall>a \<in> set zones. \<forall>b \<in> set zones. zone_type a = zone_type b) \<longrightarrow>
          (\<forall>i j. i < j \<and> j < length res \<longrightarrow>
             \<bar>lz_price (res ! j) - lz_price (res ! i)\<bar> / lz_price (res ! i) > tol)"
  proof (intro allI impI)
    fix i j
    assume same: "\<forall>a \<in> set zones. \<forall>b \<in> set zones. zone_type a = zone_type b"
      and ij: "i < j \<and> j < length res"
    have p: "\<forall>z \<in> set res. 0 < lz_price z" using pos sub by blast
    have s: "\<forall>a \<in> set res. \<forall>b \<in> set res. zone_type a = zone_type b" using same sub by blast
    from sorted_apart_pairs [OF srt suc p s] ij have "apart tol (res ! i) (res ! j)" by blast
    then show "\<bar>lz_price (res ! j) - lz_price (res ! i)\<bar> / lz_price (res ! i) > tol"
      by (simp add: apart_def)
  qed
  from res srt sub adj pairs rep show ?thesis by blast
qed

lemma example_mixed_zones_merged:
  "merge_nearby_zones example_mixed_zones 0.002 = Inr example_mixed_zones"
  by (simp add: merge_nearby_zones_def example_mixed_zones_def mk_zone_def merge_step_def Let_def)

theorem merge_nearby_zones_spacing_witness:
  "0 < lz_price (example_mixed_zones ! 0) \<and> 0 < lz_price (example_mixed_zones ! 1)
   \<and> 0 < lz_price (example_mixed_zones ! 2)
   \<and> merge_nearby_zones example_mixed_zones 0.002 \<noteq> Inl ZeroDivisionError"
proof -
  have pos: "\<forall>z \<in> set example_mixed_zones. 0 < lz_price z"
    by (simp add: example_mixed_zones_def mk_zone_def)
  from merge_nearby_zones_spacing [OF pos, of "0.002"]
  obtain res where "merge_nearby_zones example_mixed_zones 0.002 = Inr res" by blast
  then have "merge_nearby_zones example_mixed_zones 0.002 \<noteq> Inl ZeroDivisionError" by simp
  then show ?thesis by (simp add: example_mixed_zones_def mk_zone_def)
qed

text \<open>
  Claim C8, on the code. Any two merged zones of the same type should differ by more than
  0.2 percent. The merge compares a zone with the last merged zone only, so a sell-side
  zone at 100.1 between buy-side zones at 100 and 100.15 keeps the two buy-side zones from
  being compared: all three zones are kept, the buy-side ones 0.15 percent apart.
\<close>

theorem merge_nearby_zones_interleaved_types:
  "merge_nearby_zones example_mixed_zones 0.002 = Inr example_mixed_zones
   \<and> zone_type (example_mixed_zones ! 0) = zone_type (example_mixed_zones ! 2)
   \<and> \<bar>lz_price (example_mixed_zones ! 2) - lz_price (example_mixed_zones ! 0)\<bar>
       / lz_price (example_mixed_zones ! 0) \<le> 0.002"
  by (intro conjI, rule example_mixed_zones_merged)
     (simp_all add: example_mixed_zones_def mk_zone_def)

section \<open>Verification: scenario targets\<close>



































text \<open>Every gap the detector emits has its low strictly under its high, so the gaps the
  builders receive from it meet the hypothesis of the statement below.\<close>

lemma detect_fvgs_low_less_high:
  assumes "f \<in> set (detect_fvgs df lookback)"
  shows "fvg_low f < fvg_high f"
proof -
  from detect_fvgs_member [OF assms refl]
  obtain i where i: "fvg_step (tail_rows lookback df) i [] = [f]" by blast
  let ?w = "tail_rows lookback df"
  show ?thesis
  proof (cases "gap_up ?w i")
    case True
    from fvg_step_up_fields(2,3) [OF True i] True show ?thesis
      by (simp add: gap_up_def)
  next
    case False
    have "gap_down ?w i"
    proof (rule ccontr)
      assume "\<not> gap_down ?w i"
      with False have "fvg_step ?w i [] = []" by (simp only: fvg_step_cases if_False)
      with i show False by simp
    qed
    from fvg_step_down_fields(2,3) [OF False this i] this show ?thesis
      by (simp add: gap_down_def)
  qed
qed




end
